theory Spec2Isabelle
  imports Main "HOL-Library.AList"
begin

section \<open>Strings\<close>

text \<open>
  A Python \<open>str\<close> is a sequence of code points. It is modelled as a \<open>string\<close>, each
  \<open>char\<close> standing for one code point in the range U+0000 .. U+00FF. The character
  classes below are the ones the source uses: \<open>str.strip()\<close> and the regular expression
  class \<open>\s\<close> both ask \<open>str.isspace\<close>; \<open>[A-Z]\<close> and \<open>[a-z]\<close> are the ASCII ranges.
\<close>

definition isspace :: "char \<Rightarrow> bool" where
  "isspace c =
     (let n = (of_char c :: nat)
      in (9 \<le> n \<and> n \<le> 13) \<or> (28 \<le> n \<and> n \<le> 31) \<or> n = 32 \<or> n = 133 \<or> n = 160)"

definition is_AZ :: "char \<Rightarrow> bool" where
  "is_AZ c = (let n = (of_char c :: nat) in 65 \<le> n \<and> n \<le> 90)"

definition is_az :: "char \<Rightarrow> bool" where
  "is_az c = (let n = (of_char c :: nat) in 97 \<le> n \<and> n \<le> 122)"

text \<open>\<open>str.lower()\<close> on the code points below 256.\<close>

definition lower_char :: "char \<Rightarrow> char" where
  "lower_char c =
     (let n = (of_char c :: nat)
      in if (65 \<le> n \<and> n \<le> 90) \<or> (192 \<le> n \<and> n \<le> 222 \<and> n \<noteq> 215)
         then char_of (n + 32) else c)"

definition lower :: "string \<Rightarrow> string" where
  "lower s = map lower_char s"

text \<open>\<open>s.strip()\<close>: whitespace removed at both ends.\<close>

definition strip :: "string \<Rightarrow> string" where
  "strip s = rev (dropWhile isspace (rev (dropWhile isspace s)))"

text \<open>\<open>sep.join(xs)\<close>.\<close>

fun join :: "string \<Rightarrow> string list \<Rightarrow> string" where
  "join sep [] = []"
| "join sep [x] = x"
| "join sep (x # y # ys) = x @ sep @ join sep (y # ys)"

text \<open>
  \<open>s.split(sep, 1)\<close> for a separator of one character: the text before the first
  separator and the text after it, or the whole string alone when there is none.
\<close>

fun split_once :: "char \<Rightarrow> string \<Rightarrow> string list" where
  "split_once sep [] = [[]]"
| "split_once sep (c # cs) =
     (if c = sep then [[], cs]
      else (case split_once sep cs of
              [] \<Rightarrow> []
            | p # ps \<Rightarrow> (c # p) # ps))"

text \<open>A value handed to a helper: a \<open>str\<close>, or anything else (\<open>None\<close>, a float, ...).\<close>

datatype pyval = PyStr string | NotStr

section \<open>Name normalizer\<close>

subsection \<open>The pattern \<open>\s+([A-Z][a-z]*\.?|Moench|L\.)$\<close>\<close>

text \<open>
  Each piece of the pattern is a function from the text at the current position to the
  text left after the piece, \<open>None\<close> when the piece does not match there.

  \<open>$\<close> (no MULTILINE flag) holds at the end of the string and just before a newline
  that is the last character.
\<close>

definition dollar :: "string \<Rightarrow> string option" where
  "dollar s = (if s = [] \<or> s = [CHR 0x0A] then Some s else None)"

text \<open>
  \<open>[A-Z][a-z]*\.?\<close> followed by \<open>$\<close>. The star is greedy; giving a letter back
  leaves a lower-case letter in front of \<open>\.?$\<close>, which then fails, so only the longest
  run is tried. The optional period is taken when the \<open>$\<close> after it holds, and skipped
  otherwise.
\<close>

definition capital_token :: "string \<Rightarrow> string option" where
  "capital_token s =
     (case s of
        [] \<Rightarrow> None
      | c # cs \<Rightarrow>
          if is_AZ c then
            (let r = dropWhile is_az cs
             in case r of
                  [] \<Rightarrow> dollar r
                | d # r' \<Rightarrow> if d = CHR ''.'' \<and> dollar r' \<noteq> None then dollar r' else dollar r)
          else None)"

text \<open>A literal word followed by \<open>$\<close>.\<close>

definition literal_token :: "string \<Rightarrow> string \<Rightarrow> string option" where
  "literal_token w s = (if take (length w) s = w then dollar (drop (length w) s) else None)"

text \<open>The alternation, its branches tried in the order written.\<close>

definition authority_token :: "string \<Rightarrow> string option" where
  "authority_token s =
     (case capital_token s of
        Some r \<Rightarrow> Some r
      | None \<Rightarrow>
          (case literal_token ''Moench'' s of
             Some r \<Rightarrow> Some r
           | None \<Rightarrow> literal_token ''L.'' s))"

text \<open>
  The whole pattern tried at one position. \<open>\s+\<close> is greedy; every branch of the
  alternation starts with a capital letter, so it can only follow the whole run of
  whitespace.
\<close>

definition authority_at :: "string \<Rightarrow> string option" where
  "authority_at s =
     (if takeWhile isspace s = [] then None else authority_token (dropWhile isspace s))"

text \<open>
  \<open>re.sub(pattern, '', s)\<close>: the positions are tried from the left; the first match is
  replaced by the empty string and the scan goes on in what the match left, which is
  empty or one newline, where the pattern cannot match again.
\<close>

fun re_sub_authority :: "string \<Rightarrow> string" where
  "re_sub_authority [] = []"
| "re_sub_authority (c # cs) =
     (case authority_at (c # cs) of
        Some r \<Rightarrow> r
      | None \<Rightarrow> c # re_sub_authority cs)"

subsection \<open>\<open>clean_scientific_name\<close> and \<open>extract_genus\<close>\<close>

definition clean_scientific_name :: "pyval \<Rightarrow> string option" where
  "clean_scientific_name v =
     (case v of
        NotStr \<Rightarrow> None
      | PyStr nm \<Rightarrow> Some (strip (re_sub_authority (strip nm))))"

definition extract_genus :: "pyval \<Rightarrow> string option" where
  "extract_genus v =
     (case v of
        NotStr \<Rightarrow> None
      | PyStr nm \<Rightarrow>
          if CHR '' '' \<notin> set nm then None
          else Some (hd (split_once (CHR '' '') nm)))"

text \<open>The cleaned form of a string, as the cascade uses it: its input is always a \<open>str\<close>.\<close>

definition clean_str :: "string \<Rightarrow> string" where
  "clean_str nm = strip (re_sub_authority (strip nm))"

subsection \<open>Notions of the specification\<close>

text \<open>
  A string still carries a trailing authority token when the pattern matches at some
  position of it.
\<close>

fun has_trailing_authority :: "string \<Rightarrow> bool" where
  "has_trailing_authority [] = False"
| "has_trailing_authority (c # cs) =
     (authority_at (c # cs) \<noteq> None \<or> has_trailing_authority cs)"

text \<open>
  The first whitespace-delimited token of a string: the whitespace in front skipped, then
  everything up to the next whitespace character.
\<close>

definition first_ws_token :: "string \<Rightarrow> string" where
  "first_ws_token s = takeWhile (\<lambda>c. \<not> isspace c) (dropWhile isspace s)"

text \<open>A string neither begins nor ends with whitespace.\<close>

definition no_outer_whitespace :: "string \<Rightarrow> bool" where
  "no_outer_whitespace s = (s = [] \<or> (\<not> isspace (hd s) \<and> \<not> isspace (last s)))"

text \<open>
  An authority word: a capital letter, then lower-case letters, then an optional period.
  The two words the pattern spells out, \<open>Moench\<close> and \<open>L.\<close>, are of this form.
\<close>

definition authority_word :: "string \<Rightarrow> bool" where
  "authority_word w =
     (case w of
        [] \<Rightarrow> False
      | c # cs \<Rightarrow> is_AZ c \<and> (dropWhile is_az cs = [] \<or> dropWhile is_az cs = ''.''))"

text \<open>
  The last whitespace-delimited word of a string, and the strings that end in an
  authority word with something in front of it.
\<close>

definition last_word :: "string \<Rightarrow> string" where
  "last_word s = rev (takeWhile (\<lambda>c. \<not> isspace c) (rev s))"

definition ends_with_authority_word :: "string \<Rightarrow> bool" where
  "ends_with_authority_word s =
     (authority_word (last_word s) \<and> length (last_word s) < length s)"

section \<open>Match service\<close>

text \<open>
  The JSON the service returns, reduced to the fields the program reads. A key the
  program reads with \<open>.get\<close> may be missing, so it is an option.
\<close>

record taxon =
  unique_name :: "string option"
  synonyms :: "string list option"
  ott_id :: "int option"
  rank :: "string option"

record tnrs_match =
  taxon :: taxon
  is_approximate_match :: "bool option"
  is_synonym :: "bool option"

record item =
  name :: string
  matches :: "tnrs_match list"

text \<open>
  What \<open>query_ott_tnrs\<close> hands back for a call that was sent: \<open>None\<close> after a transport
  error, a bad status or a body that is not JSON, and \<open>Some items\<close> for a body whose
  \<open>results\<close> are \<open>items\<close>. A body without \<open>results\<close> is treated by the program as
  \<open>None\<close> is, and is \<open>None\<close> here.

  The service is outside the program: it is a parameter, and it answers the \<open>k\<close>-th call
  of a run, given the names sent, in any way whatever.
\<close>

type_synonym api_response = "item list option"

type_synonym service = "nat \<Rightarrow> string list \<Rightarrow> api_response"

definition BATCH_SIZE :: nat where
  "BATCH_SIZE = 200"

text \<open>\<open>query_ott_tnrs\<close>, with the list of the calls sent so far threaded through.\<close>

definition query_ott_tnrs ::
  "service \<Rightarrow> string list \<Rightarrow> string list list \<Rightarrow> api_response \<times> string list list" where
  "query_ott_tnrs svc names_list log =
     (if names_list = [] then (None, log)
      else (svc (length log) names_list, log @ [names_list]))"

section \<open>Resolution records\<close>

record resolution =
  Primary_Matched_Name :: "string option"
  Synonyms :: "string option"
  OTT_ID :: "int option"
  Rank :: "string option"
  Match_Query :: string
  Match_Level :: string
  Approximate_Match :: bool
  Is_Synonym_Input :: bool

text \<open>
  A Python \<open>dict\<close> keeps its keys in insertion order and assigning to a key that is
  present replaces its value in place: an association list under \<open>AList.update\<close>.
\<close>

type_synonym results = "(string \<times> resolution) list"

datatype error = KeyError string

record state =
  all_results :: results
  calls :: "string list list"

text \<open>The record built from the first match of an item.\<close>

definition matched_record :: "tnrs_match \<Rightarrow> string \<Rightarrow> string \<Rightarrow> resolution" where
  "matched_record m query level =
     \<lparr>Primary_Matched_Name = unique_name (taxon m),
      Synonyms = Some (join ''; '' (case synonyms (taxon m) of None \<Rightarrow> [] | Some l \<Rightarrow> l)),
      OTT_ID = ott_id (taxon m),
      Rank = rank (taxon m),
      Match_Query = query,
      Match_Level = level,
      Approximate_Match = (case is_approximate_match m of None \<Rightarrow> False | Some b \<Rightarrow> b),
      Is_Synonym_Input = (case is_synonym m of None \<Rightarrow> False | Some b \<Rightarrow> b)\<rparr>"

text \<open>The record of a name without a match.\<close>

definition unmatched_record :: "string \<Rightarrow> string \<Rightarrow> resolution" where
  "unmatched_record query level =
     \<lparr>Primary_Matched_Name = None, Synonyms = None, OTT_ID = None, Rank = None,
      Match_Query = query, Match_Level = level,
      Approximate_Match = False, Is_Synonym_Input = False\<rparr>"

text \<open>\<open>name not in results or results[name].get('OTT ID') is None\<close>.\<close>

definition unresolved :: "results \<Rightarrow> string \<Rightarrow> bool" where
  "unresolved results_dict nm =
     (case map_of results_dict nm of None \<Rightarrow> True | Some r \<Rightarrow> OTT_ID r = None)"

section \<open>\<open>process_tnrs_results\<close>\<close>

text \<open>The body of the loop over the items of a response.\<close>

definition process_item ::
  "string \<Rightarrow> (string \<times> string) list \<Rightarrow> item \<Rightarrow> results \<Rightarrow> results" where
  "process_item match_level query_map it results_dict =
     (let original_query_name = name it;
          target_name =
            (if query_map \<noteq> [] then
               (case map_of query_map original_query_name of
                  None \<Rightarrow> original_query_name
                | Some t \<Rightarrow> t)
             else original_query_name)
      in if unresolved results_dict target_name then
           (case matches it of
              m # _ \<Rightarrow>
                AList.update target_name
                  (matched_record m original_query_name match_level) results_dict
            | [] \<Rightarrow>
                if match_level = ''Species - Original''
                   \<and> map_of results_dict target_name = None
                then AList.update target_name
                       (unmatched_record original_query_name ''No Match Initial'') results_dict
                else results_dict)
         else results_dict)"

text \<open>An absent \<open>query_map\<close> and an empty one are the same to the program: \<open>[]\<close>.\<close>

definition process_tnrs_results ::
  "api_response \<Rightarrow> results \<Rightarrow> string \<Rightarrow> (string \<times> string) list \<Rightarrow> results" where
  "process_tnrs_results api_response results_dict match_level query_map =
     (case api_response of
        None \<Rightarrow> results_dict
      | Some items \<Rightarrow> fold (process_item match_level query_map) items results_dict)"

section \<open>The cascade\<close>

subsection \<open>Step 1: the original names, in batches\<close>

definition stage1_batch :: "service \<Rightarrow> string list \<Rightarrow> nat \<Rightarrow> state \<Rightarrow> state" where
  "stage1_batch svc unique_names i st =
     (let batch = take BATCH_SIZE (drop i unique_names);
          (batch_result_data, log) = query_ott_tnrs svc batch (calls st)
      in \<lparr>all_results =
            process_tnrs_results batch_result_data (all_results st) ''Species - Original'' [],
          calls = log\<rparr>)"

text \<open>\<open>range(0, len(unique_names), BATCH_SIZE)\<close>.\<close>

definition batch_starts :: "string list \<Rightarrow> nat list" where
  "batch_starts unique_names =
     map (\<lambda>k. k * BATCH_SIZE) [0 ..< (length unique_names + BATCH_SIZE - 1) div BATCH_SIZE]"

definition stage1 :: "service \<Rightarrow> string list \<Rightarrow> state \<Rightarrow> state" where
  "stage1 svc unique_names st =
     fold (stage1_batch svc unique_names) (batch_starts unique_names) st"

text \<open>
  \<open>[name for name in failed_names if all_results[name].get('OTT ID') is None]\<close>:
  the subscript raises \<open>KeyError\<close> at the first name without a record.
\<close>

fun still_failed :: "results \<Rightarrow> string list \<Rightarrow> error + string list" where
  "still_failed results_dict [] = Inr []"
| "still_failed results_dict (nm # nms) =
     (case map_of results_dict nm of
        None \<Rightarrow> Inl (KeyError nm)
      | Some r \<Rightarrow>
          (case still_failed results_dict nms of
             Inl e \<Rightarrow> Inl e
           | Inr fs \<Rightarrow> Inr (if OTT_ID r = None then nm # fs else fs)))"

subsection \<open>Step 2: the cleaned names\<close>

definition cleaned_step ::
  "string \<Rightarrow> (string \<times> string) list \<times> string list \<Rightarrow> (string \<times> string) list \<times> string list"
  where
  "cleaned_step nm acc =
     (case acc of (cleaned_names_map, names_to_query_cleaned) \<Rightarrow>
        (case clean_scientific_name (PyStr nm) of
           None \<Rightarrow> acc
         | Some cleaned \<Rightarrow>
             if cleaned \<noteq> [] \<and> cleaned \<noteq> nm
             then (AList.update cleaned nm cleaned_names_map, names_to_query_cleaned @ [cleaned])
             else acc))"

text \<open>
  \<open>list(set(names_to_query_cleaned))\<close> holds each cleaned name once, in an order Python
  does not fix; \<open>remdups\<close> is one such order.
\<close>

definition stage2 :: "service \<Rightarrow> string list \<Rightarrow> state \<Rightarrow> error + state \<times> string list" where
  "stage2 svc failed_names st =
     (case fold cleaned_step failed_names ([], []) of
        (cleaned_names_map, names_to_query_cleaned) \<Rightarrow>
          (let st' =
                 (if names_to_query_cleaned \<noteq> [] then
                    (case query_ott_tnrs svc (remdups names_to_query_cleaned) (calls st) of
                       (cleaned_result_data, log) \<Rightarrow>
                         \<lparr>all_results =
                            process_tnrs_results cleaned_result_data (all_results st)
                              ''Species - Cleaned'' cleaned_names_map,
                          calls = log\<rparr>)
                  else st)
           in case still_failed (all_results st') failed_names of
                Inl e \<Rightarrow> Inl e
              | Inr failed_names' \<Rightarrow> Inr (st', failed_names')))"

subsection \<open>Step 3: the genus\<close>

definition genus_step ::
  "string \<Rightarrow> (string \<times> string list) list \<times> string list
     \<Rightarrow> (string \<times> string list) list \<times> string list" where
  "genus_step nm acc =
     (case acc of (genus_map, genera_to_query) \<Rightarrow>
        (case extract_genus (PyStr nm) of
           None \<Rightarrow> acc
         | Some genus \<Rightarrow>
             if genus \<noteq> [] then
               (AList.update genus
                  ((case map_of genus_map genus of None \<Rightarrow> [] | Some l \<Rightarrow> l) @ [nm]) genus_map,
                if genus \<in> set genera_to_query then genera_to_query
                else genera_to_query @ [genus])
             else acc))"

definition accepted_ranks :: "string list" where
  "accepted_ranks = [''genus'', ''family'', ''order'', ''class'', ''phylum'', ''kingdom'']"

text \<open>What the genus step does to one name of the genus an item answers.\<close>

definition genus_update :: "item \<Rightarrow> string \<Rightarrow> results \<Rightarrow> error + results" where
  "genus_update it target_name results_dict =
     (case map_of results_dict target_name of
        None \<Rightarrow> Inl (KeyError target_name)
      | Some r \<Rightarrow>
          if OTT_ID r = None then
            (case matches it of
               m # _ \<Rightarrow>
                 if lower (case rank (taxon m) of None \<Rightarrow> [] | Some rk \<Rightarrow> rk)
                      \<in> set accepted_ranks
                 then Inr (AList.update target_name
                             (matched_record m (name it) ''Genus'') results_dict)
                 else Inr results_dict
             | [] \<Rightarrow>
                 Inr (AList.update target_name
                        (r\<lparr>Match_Level := ''No Match Final - Genus Failed''\<rparr>) results_dict))
          else Inr results_dict)"

fun genus_targets :: "item \<Rightarrow> string list \<Rightarrow> results \<Rightarrow> error + results" where
  "genus_targets it [] results_dict = Inr results_dict"
| "genus_targets it (target_name # rest) results_dict =
     (case genus_update it target_name results_dict of
        Inl e \<Rightarrow> Inl e
      | Inr results_dict' \<Rightarrow> genus_targets it rest results_dict')"

fun genus_items ::
  "(string \<times> string list) list \<Rightarrow> item list \<Rightarrow> results \<Rightarrow> error + results" where
  "genus_items genus_map [] results_dict = Inr results_dict"
| "genus_items genus_map (it # its) results_dict =
     (case map_of genus_map (name it) of
        None \<Rightarrow> genus_items genus_map its results_dict
      | Some original_names_for_genus \<Rightarrow>
          (case genus_targets it original_names_for_genus results_dict of
             Inl e \<Rightarrow> Inl e
           | Inr results_dict' \<Rightarrow> genus_items genus_map its results_dict'))"

text \<open>The names still without an identifier get their final label.\<close>

fun finalize_failed :: "string list \<Rightarrow> results \<Rightarrow> error + results" where
  "finalize_failed [] results_dict = Inr results_dict"
| "finalize_failed (nm # nms) results_dict =
     (case map_of results_dict nm of
        None \<Rightarrow> Inl (KeyError nm)
      | Some r \<Rightarrow>
          finalize_failed nms
            (if Match_Level r \<notin> set [''Genus'', ''No Match Final - Genus Failed'']
             then AList.update nm (r\<lparr>Match_Level := ''No Match Final''\<rparr>) results_dict
             else results_dict))"

definition stage3 :: "service \<Rightarrow> string list \<Rightarrow> state \<Rightarrow> error + state" where
  "stage3 svc failed_names st =
     (case fold genus_step failed_names ([], []) of
        (genus_map, genera_to_query) \<Rightarrow>
          (case (if genera_to_query \<noteq> [] then
                   (case query_ott_tnrs svc genera_to_query (calls st) of
                      (None, log) \<Rightarrow> Inr (st\<lparr>calls := log\<rparr>)
                    | (Some items, log) \<Rightarrow>
                        (case genus_items genus_map items (all_results st) of
                           Inl e \<Rightarrow> Inl e
                         | Inr results_dict \<Rightarrow> Inr \<lparr>all_results = results_dict, calls = log\<rparr>))
                 else Inr st) of
             Inl e \<Rightarrow> Inl e
           | Inr st' \<Rightarrow>
               (case still_failed (all_results st') failed_names of
                  Inl e \<Rightarrow> Inl e
                | Inr failed_names' \<Rightarrow>
                    (case finalize_failed failed_names' (all_results st') of
                       Inl e \<Rightarrow> Inl e
                     | Inr results_dict \<Rightarrow> Inr (st'\<lparr>all_results := results_dict\<rparr>)))))"

subsection \<open>Before the merge\<close>

definition fill_step :: "string \<Rightarrow> results \<Rightarrow> results" where
  "fill_step nm results_dict =
     (case map_of results_dict nm of
        None \<Rightarrow> AList.update nm (unmatched_record nm ''Processing Error'') results_dict
      | Some r \<Rightarrow>
          if OTT_ID r = None \<and> Match_Level r = ''No Match Initial''
          then AList.update nm (r\<lparr>Match_Level := ''No Match Final''\<rparr>) results_dict
          else results_dict)"

text \<open>
  Nothing is filled in when the map is empty. The data frame is empty only when no name
  was read, and then the map is empty too.
\<close>

definition fill_missing :: "string list \<Rightarrow> results \<Rightarrow> results" where
  "fill_missing unique_names results_dict =
     (if results_dict = [] then results_dict else fold fill_step unique_names results_dict)"

subsection \<open>The whole run\<close>

definition cascade :: "service \<Rightarrow> string list \<Rightarrow> error + state" where
  "cascade svc unique_names =
     (let st0 = \<lparr>all_results = [], calls = []\<rparr>
      in if unique_names \<noteq> [] then
           (let st1 = stage1 svc unique_names st0;
                failed_names = filter (unresolved (all_results st1)) unique_names
            in case (if failed_names \<noteq> [] then stage2 svc failed_names st1
                     else Inr (st1, failed_names)) of
                 Inl e \<Rightarrow> Inl e
               | Inr (st2, failed_names') \<Rightarrow>
                   if failed_names' \<noteq> [] then stage3 svc failed_names' st2 else Inr st2)
         else Inr st0)"

definition run :: "service \<Rightarrow> string list \<Rightarrow> error + state" where
  "run svc unique_names =
     (case cascade svc unique_names of
        Inl e \<Rightarrow> Inl e
      | Inr st \<Rightarrow> Inr (st\<lparr>all_results := fill_missing unique_names (all_results st)\<rparr>))"

section \<open>Scenarios\<close>

text \<open>Items and services used to run the cascade on concrete inputs.\<close>

definition no_candidates :: "string \<Rightarrow> item" where
  "no_candidates nm = \<lparr>name = nm, matches = []\<rparr>"

definition candidate :: "string \<Rightarrow> int \<Rightarrow> string \<Rightarrow> item" where
  "candidate nm i rk =
     \<lparr>name = nm,
      matches =
        [\<lparr>taxon = \<lparr>unique_name = Some nm, synonyms = Some [], ott_id = Some i, rank = Some rk\<rparr>,
          is_approximate_match = Some False, is_synonym = Some False\<rparr>]\<rparr>"

text \<open>A service that is down, and one that answers every call with no candidate at all.\<close>

definition service_down :: service where
  "service_down k q = None"

definition service_empty :: service where
  "service_empty k q = Some (map no_candidates q)"

text \<open>The strings step 2 sends for a list of failed names, before duplicates are removed.\<close>

definition cleaned_queries :: "string list \<Rightarrow> string list" where
  "cleaned_queries ns = map clean_str (filter (\<lambda>n. clean_str n \<noteq> [] \<and> clean_str n \<noteq> n) ns)"

text \<open>A service whose first call fails and whose later calls find no candidate.\<close>

definition service_first_down :: service where
  "service_first_down k q = (if k = 0 then None else Some (map no_candidates q))"

text \<open>A service that finds a species for every name of its second call only.\<close>

definition service_cleaned_hit :: service where
  "service_cleaned_hit k q =
     (if k = 1 then Some (map (\<lambda>n. candidate n 5 ''species'') q)
      else Some (map no_candidates q))"

text \<open>A service that finds the same kind of candidate for every name of every call.\<close>

definition service_hits :: "int \<Rightarrow> string \<Rightarrow> service" where
  "service_hits i rk k q = Some (map (\<lambda>n. candidate n i rk) q)"

text \<open>A state in which one name is resolved, and the record it holds.\<close>

definition resolved_state :: state where
  "resolved_state =
     \<lparr>all_results =
        [(''Oryza sativa L.'',
          \<lparr>Primary_Matched_Name = Some ''Oryza sativa'', Synonyms = Some [],
           OTT_ID = Some 5, Rank = Some ''species'', Match_Query = ''Oryza sativa L.'',
           Match_Level = ''Species - Original'', Approximate_Match = False,
           Is_Synonym_Input = False\<rparr>)],
      calls = [[''Oryza sativa L.'']]\<rparr>"


definition oryza_record :: resolution where
  "oryza_record =
     \<lparr>Primary_Matched_Name = Some ''Oryza sativa'', Synonyms = Some [],
      OTT_ID = Some 5, Rank = Some ''species'', Match_Query = ''Oryza sativa L.'',
      Match_Level = ''Species - Original'', Approximate_Match = False,
      Is_Synonym_Input = False\<rparr>"

text \<open>A result map in which one name has the placeholder of step 1.\<close>

definition unmatched_oryza :: results where
  "unmatched_oryza = [(''Oryza sativa'', unmatched_record ''Oryza sativa'' ''No Match Initial'')]"


text \<open>The state before step 3 in which one name has the placeholder of step 1.\<close>

definition unmatched_state :: state where
  "unmatched_state = \<lparr>all_results = unmatched_oryza, calls = [[''Oryza sativa'']]\<rparr>"


section \<open>The name normalizer: proofs\<close>

lemma last_dropWhile: "dropWhile P xs \<noteq> [] \<Longrightarrow> last (dropWhile P xs) = last xs"
  by (induction xs) (auto split: if_splits)

lemma strip_no_outer: "no_outer_whitespace (strip s)"
proof (cases "strip s = []")
  case True
  then show ?thesis by (simp add: no_outer_whitespace_def)
next
  case False
  define t where "t = dropWhile isspace s"
  define u where "u = dropWhile isspace (rev t)"
  have s: "strip s = rev u" by (simp add: strip_def t_def u_def)
  with False have u: "u \<noteq> []" by simp
  then have "rev t \<noteq> []" by (auto simp: u_def)
  then have t: "t \<noteq> []" by simp
  have "last (strip s) = hd u" using u by (simp add: s last_rev)
  moreover have "\<not> isspace (hd u)" using u unfolding u_def by (rule hd_dropWhile)
  moreover have "hd (strip s) = last u" using u by (simp add: s hd_rev)
  moreover have "last u = last (rev t)" using u unfolding u_def by (rule last_dropWhile)
  moreover have "last (rev t) = hd t" using t by (simp add: last_rev)
  moreover have "\<not> isspace (hd t)" using t unfolding t_def by (rule hd_dropWhile)
  ultimately show ?thesis by (simp add: no_outer_whitespace_def)
qed

lemma strip_id: "no_outer_whitespace s \<Longrightarrow> strip s = s"
proof (cases "s = []")
  case True then show ?thesis by (simp add: strip_def)
next
  case False
  assume "no_outer_whitespace s"
  with False have h: "\<not> isspace (hd s)" and l: "\<not> isspace (last s)"
    by (auto simp: no_outer_whitespace_def)
  from False h have 1: "dropWhile isspace s = s" by (cases s) auto
  from False l have "\<not> isspace (hd (rev s))" by (simp add: hd_rev)
  with False have 2: "dropWhile isspace (rev s) = rev s" by (cases "rev s") auto
  show ?thesis by (simp add: strip_def 1 2)
qed

lemma length_strip: "length (strip s) \<le> length s"
proof -
  have "length (strip s) \<le> length (dropWhile isspace s)"
    unfolding strip_def by (metis length_dropWhile_le length_rev)
  also have "\<dots> \<le> length s" by (rule length_dropWhile_le)
  finally show ?thesis .
qed

lemma dollar_Some: "dollar s = Some r \<Longrightarrow> r = s"
  by (auto simp: dollar_def split: if_splits)

lemma capital_token_shorter: "capital_token s = Some r \<Longrightarrow> length r < length s"
proof -
  assume a: "capital_token s = Some r"
  then obtain c cs where s: "s = c # cs" by (cases s) (auto simp: capital_token_def)
  have le: "length (dropWhile is_az cs) \<le> length cs" by (rule length_dropWhile_le)
  from a s have "r = dropWhile is_az cs \<or> r = tl (dropWhile is_az cs)"
    by (auto simp: capital_token_def Let_def dest!: dollar_Some split: if_splits list.splits)
  with le s show ?thesis by (auto simp: less_Suc_eq_le intro: le_trans [OF _ le])
qed

lemma literal_token_shorter: "w \<noteq> [] \<Longrightarrow> literal_token w s = Some r \<Longrightarrow> length r < length s"
proof -
  assume w: "w \<noteq> []" and a: "literal_token w s = Some r"
  from a have t: "take (length w) s = w" and r: "r = drop (length w) s"
    by (auto simp: literal_token_def dest!: dollar_Some split: if_splits)
  have "length (take (length w) s) \<le> length s" by simp
  with t have "length w \<le> length s" by simp
  with w r show ?thesis by (cases w) auto
qed

lemma authority_token_shorter: "authority_token s = Some r \<Longrightarrow> length r < length s"
  by (auto simp: authority_token_def split: option.splits
      dest: capital_token_shorter literal_token_shorter [rotated])

lemma authority_at_shorter: "authority_at s = Some r \<Longrightarrow> length r < length s"
proof -
  assume "authority_at s = Some r"
  then have "authority_token (dropWhile isspace s) = Some r"
    by (auto simp: authority_at_def split: if_splits)
  then have "length r < length (dropWhile isspace s)" by (rule authority_token_shorter)
  also have "\<dots> \<le> length s" by (rule length_dropWhile_le)
  finally show ?thesis .
qed

lemma re_sub_fixed: "\<not> has_trailing_authority s \<Longrightarrow> re_sub_authority s = s"
  by (induction s) (auto split: option.splits)

lemma re_sub_length: "length (re_sub_authority s) \<le> length s"
  by (induction s) (auto split: option.splits dest: authority_at_shorter)

lemma re_sub_shorter: "has_trailing_authority s \<Longrightarrow> length (re_sub_authority s) < length s"
proof (induction s)
  case Nil then show ?case by simp
next
  case (Cons c cs)
  show ?case
  proof (cases "authority_at (c # cs)")
    case None
    with Cons show ?thesis by auto
  next
    case (Some r)
    then show ?thesis using authority_at_shorter [OF Some] by simp
  qed
qed

lemma clean_str_no_outer: "no_outer_whitespace (clean_str x)"
  by (simp add: clean_str_def strip_no_outer)

lemma clean_twice:
  "(clean_str (clean_str x) = clean_str x) = (\<not> has_trailing_authority (clean_str x))"
proof -
  define y where "y = clean_str x"
  have sy: "strip y = y" unfolding y_def by (rule strip_id [OF clean_str_no_outer])
  have c: "clean_str y = strip (re_sub_authority y)" by (simp add: clean_str_def sy)
  show ?thesis
  proof (cases "has_trailing_authority y")
    case False
    then have "re_sub_authority y = y" by (rule re_sub_fixed)
    with c sy False show ?thesis by (simp add: y_def)
  next
    case True
    have "length (clean_str y) \<le> length (re_sub_authority y)"
      unfolding c by (rule length_strip)
    also have "\<dots> < length y" using True by (rule re_sub_shorter)
    finally have "clean_str y \<noteq> y" by auto
    with True show ?thesis by (simp add: y_def)
  qed
qed

lemma split_once_nonempty: "split_once sep s \<noteq> []"
  by (induction s) (auto split: list.splits)

lemma hd_split_once: "hd (split_once sep s) = takeWhile (\<lambda>c. c \<noteq> sep) s"
  using split_once_nonempty by (induction s) (auto split: list.splits)

lemma takeWhile_not_space:
  "\<forall>c \<in> set (takeWhile (\<lambda>c. c \<noteq> CHR '' '') s). \<not> isspace c \<Longrightarrow>
   takeWhile (\<lambda>c. \<not> isspace c) s = takeWhile (\<lambda>c. c \<noteq> CHR '' '') s \<or> CHR '' '' \<notin> set s"
  by (induction s) (auto simp: isspace_def)

lemma clean_scientific_name_str: "clean_scientific_name (PyStr s) = Some (clean_str s)"
  by (simp add: clean_scientific_name_def clean_str_def)

text \<open>
  Claim C4, as stated, fails: cleaning strips one trailing authority token, so a name
  that carries two of them changes again when it is cleaned a second time.
\<close>

theorem clean_not_idempotent:
  "clean_scientific_name (PyStr ''Abelmoschus esculentus L. Moench'')
     = Some ''Abelmoschus esculentus L.''
   \<and> clean_scientific_name (PyStr ''Abelmoschus esculentus L.'')
     = Some ''Abelmoschus esculentus''
   \<and> ''Abelmoschus esculentus'' \<noteq> ''Abelmoschus esculentus L.''"
  by code_simp

lemma isspace_newline: "isspace (CHR 0x0A)"
  by (simp add: isspace_def)

lemma is_AZ_not_space: "is_AZ c \<Longrightarrow> \<not> isspace c"
  by (auto simp: is_AZ_def isspace_def Let_def)

lemma is_az_not_space: "is_az c \<Longrightarrow> \<not> isspace c"
  by (auto simp: is_az_def isspace_def Let_def)

lemma authority_word_no_space:
  assumes "authority_word w"
  shows "w \<noteq> [] \<and> (\<forall>c \<in> set w. \<not> isspace c)"
proof -
  from assms obtain c cs where w: "w = c # cs" and c: "is_AZ c"
    and d: "dropWhile is_az cs = [] \<or> dropWhile is_az cs = ''.''"
    by (cases w) (auto simp: authority_word_def)
  have cs: "cs = takeWhile is_az cs @ dropWhile is_az cs" by simp
  have t: "\<forall>x \<in> set (takeWhile is_az cs). \<not> isspace x"
    using is_az_not_space by (auto dest: set_takeWhileD)
  have "\<forall>x \<in> set (dropWhile is_az cs). \<not> isspace x"
  proof (cases "dropWhile is_az cs = []")
    case True
    then show ?thesis by (simp only: list.set ball_empty)
  next
    case False
    with d have "dropWhile is_az cs = ''.''" by blast
    then show ?thesis by (simp only: list.set) (simp add: isspace_def)
  qed
  with t have "\<forall>x \<in> set cs. \<not> isspace x" by (subst cs) (simp add: ball_Un del: takeWhile_dropWhile_id)
  with w c show ?thesis by (simp add: is_AZ_not_space)
qed

lemma authority_token_word:
  assumes "authority_word w"
  shows "authority_token w = Some []"
proof -
  from assms obtain c cs where w: "w = c # cs" and c: "is_AZ c"
    and d: "dropWhile is_az cs = [] \<or> dropWhile is_az cs = ''.''"
    by (cases w) (auto simp: authority_word_def)
  from d have "capital_token w = Some []"
  proof
    assume "dropWhile is_az cs = []"
    with w c show ?thesis
      by (simp add: capital_token_def dollar_def Let_def del: dropWhile_eq_Nil_conv)
  next
    assume "dropWhile is_az cs = ''.''"
    with w c show ?thesis
      by (simp add: capital_token_def dollar_def Let_def del: dropWhile_eq_Nil_conv)
  qed
  then show ?thesis by (simp add: authority_token_def)
qed

lemma authority_word_literals: "authority_word ''Moench''" "authority_word ''L.''"
  by (simp_all add: authority_word_def is_AZ_def is_az_def)

lemma dollar_end: "dollar s = Some r \<Longrightarrow> r = [] \<or> r = [CHR 0x0A]"
  by (auto simp: dollar_def split: if_splits)

lemma capital_token_Some:
  assumes "capital_token t = Some r"
  shows "\<exists>w. t = w @ r \<and> authority_word w \<and> (r = [] \<or> r = [CHR 0x0A])"
proof -
  from assms obtain c cs where t: "t = c # cs" and c: "is_AZ c"
    by (cases t) (auto simp: capital_token_def split: if_splits)
  define rr where "rr = dropWhile is_az cs"
  have cs: "cs = takeWhile is_az cs @ rr" by (simp add: rr_def)
  have tw: "dropWhile is_az (takeWhile is_az cs) = []" by (auto dest: set_takeWhileD)
  show ?thesis
  proof (cases rr)
    case Nil
    with assms t c have "r = []"
      by (simp add: capital_token_def rr_def [symmetric] dollar_def Let_def)
    moreover have "authority_word t" using t c Nil
      by (simp add: authority_word_def rr_def [symmetric] del: dropWhile_eq_Nil_conv)
    ultimately show ?thesis by simp
  next
    case (Cons d r')
    show ?thesis
    proof (cases "d = CHR ''.'' \<and> dollar r' \<noteq> None")
      case True
      with assms t c Cons have "dollar r' = Some r"
        by (simp add: capital_token_def rr_def [symmetric] Let_def)
      from dollar_Some [OF this] dollar_end [OF this]
      have r: "r = r'" "r = [] \<or> r = [CHR 0x0A]" .
      have "\<not> is_az (CHR ''.'')" by (simp add: is_az_def)
      moreover have "dropWhile is_az (takeWhile is_az cs @ ''.'') = dropWhile is_az ''.''"
        by (rule dropWhile_append2) (auto dest: set_takeWhileD)
      ultimately have "dropWhile is_az (takeWhile is_az cs @ ''.'') = ''.''"
        by simp
      then have "authority_word (c # takeWhile is_az cs @ ''.'')"
        using c by (simp add: authority_word_def)
      moreover have "t = (c # takeWhile is_az cs @ ''.'') @ r"
        using t cs Cons True r by simp
      ultimately show ?thesis using r by blast
    next
      case False
      with assms t c Cons have "dollar rr = Some r"
        by (auto simp: capital_token_def rr_def [symmetric] Let_def)
      from dollar_Some [OF this] dollar_end [OF this]
      have r: "r = rr" "r = [] \<or> r = [CHR 0x0A]" .
      have "authority_word (c # takeWhile is_az cs)"
        using c tw by (simp add: authority_word_def)
      moreover have "t = (c # takeWhile is_az cs) @ r" using t cs r by simp
      ultimately show ?thesis using r by blast
    qed
  qed
qed

lemma literal_token_Some:
  assumes "literal_token w t = Some r"
  shows "t = w @ r \<and> (r = [] \<or> r = [CHR 0x0A])"
proof -
  from assms have tk: "take (length w) t = w" and d: "dollar (drop (length w) t) = Some r"
    by (auto simp: literal_token_def split: if_splits)
  from dollar_Some [OF d] have r: "r = drop (length w) t" .
  have "t = take (length w) t @ drop (length w) t" by simp
  then have "t = w @ r" unfolding tk r [symmetric] .
  with dollar_end [OF d] show ?thesis by simp
qed

lemma authority_token_Some:
  assumes "authority_token t = Some r"
  shows "\<exists>w. t = w @ r \<and> authority_word w \<and> (r = [] \<or> r = [CHR 0x0A])"
proof (cases "capital_token t")
  case (Some r1)
  with assms have "capital_token t = Some r" by (simp add: authority_token_def)
  then show ?thesis by (rule capital_token_Some)
next
  case None
  show ?thesis
  proof (cases "literal_token ''Moench'' t")
    case (Some r1)
    with None assms have "literal_token ''Moench'' t = Some r" by (simp add: authority_token_def)
    from literal_token_Some [OF this] authority_word_literals(1) show ?thesis by blast
  next
    case None2: None
    with None assms have "literal_token ''L.'' t = Some r" by (simp add: authority_token_def)
    from literal_token_Some [OF this] authority_word_literals(2) show ?thesis by blast
  qed
qed

lemma authority_at_Some:
  assumes "authority_at s = Some r"
  shows "\<exists>ws w. s = ws @ w @ r \<and> ws \<noteq> [] \<and> (\<forall>c \<in> set ws. isspace c)
     \<and> authority_word w \<and> (r = [] \<or> r = [CHR 0x0A])"
proof -
  from assms have ne: "takeWhile isspace s \<noteq> []"
    and tk: "authority_token (dropWhile isspace s) = Some r"
    by (auto simp: authority_at_def split: if_splits)
  from authority_token_Some [OF tk] obtain w where
    w: "dropWhile isspace s = w @ r" "authority_word w" "r = [] \<or> r = [CHR 0x0A]" by blast
  have "s = takeWhile isspace s @ w @ r" using w(1) by (metis takeWhile_dropWhile_id)
  moreover have "\<forall>c \<in> set (takeWhile isspace s). isspace c" by (auto dest: set_takeWhileD)
  ultimately show ?thesis using ne w by blast
qed

lemma authority_at_word:
  assumes "ws \<noteq> []" and "\<forall>c \<in> set ws. isspace c" and "authority_word w"
  shows "authority_at (ws @ w) = Some []"
proof -
  from authority_word_no_space [OF assms(3)] obtain c cs where w: "w = c # cs" and c: "\<not> isspace c"
    by (cases w) auto
  have "takeWhile isspace (ws @ w) = ws" using assms(2) w c by (simp add: takeWhile_append2)
  moreover have "dropWhile isspace (ws @ w) = w" using assms(2) w c by (simp add: dropWhile_append2)
  ultimately show ?thesis using assms(1,3) by (simp add: authority_at_def authority_token_word)
qed

lemma authority_at_inside:
  assumes u: "u \<noteq> []" and lu: "\<not> isspace (last u)"
    and ws: "ws \<noteq> []" "\<forall>c \<in> set ws. isspace c" and w: "authority_word w"
  shows "authority_at (u @ ws @ w) = None"
proof (rule ccontr)
  assume "authority_at (u @ ws @ w) \<noteq> None"
  then obtain r where "authority_at (u @ ws @ w) = Some r" by auto
  then have tk: "authority_token (dropWhile isspace (u @ ws @ w)) = Some r"
    by (auto simp: authority_at_def split: if_splits)
  from authority_token_Some [OF tk] obtain w' where
    w': "dropWhile isspace (u @ ws @ w) = w' @ r" "authority_word w'"
      "r = [] \<or> r = [CHR 0x0A]" by blast
  have "last u \<in> set u" using u by simp
  with lu have d: "dropWhile isspace (u @ ws @ w) = dropWhile isspace u @ ws @ w"
    by (simp add: dropWhile_append1)
  from authority_word_no_space [OF w] have wne: "w \<noteq> []" and wl: "\<not> isspace (last w)" by auto
  have "last (w' @ r) = last w" using w'(1) d wne by (metis last_appendR append_is_Nil_conv)
  moreover have "isspace (CHR 0x0A)" by (simp add: isspace_def)
  ultimately have r: "r = []" using wl w'(3) by auto
  have "hd ws \<in> set (dropWhile isspace u @ ws @ w)" using ws(1) by simp
  with w'(1) d r have "hd ws \<in> set w'" by simp
  with authority_word_no_space [OF w'(2)] have "\<not> isspace (hd ws)" by blast
  with ws show False by simp
qed

lemma re_sub_authority_last:
  assumes "ws \<noteq> []" and "\<forall>c \<in> set ws. isspace c" and "authority_word w"
  shows "u = [] \<or> \<not> isspace (last u) \<Longrightarrow> re_sub_authority (u @ ws @ w) = u"
proof (induction u)
  case Nil
  from assms(1) obtain c cs where "ws @ w = c # cs" by (cases ws) auto
  with authority_at_word [OF assms] show ?case by simp
next
  case (Cons c cs)
  then have l: "\<not> isspace (last (c # cs))" by simp
  from authority_at_inside [OF _ l assms] have "authority_at ((c # cs) @ ws @ w) = None" by simp
  moreover have "cs = [] \<or> \<not> isspace (last cs)" using l by (cases cs) auto
  ultimately show ?case using Cons.IH by simp
qed

lemma clean_str_last_authority:
  assumes y: "y \<noteq> []" "no_outer_whitespace y"
    and ws: "ws \<noteq> []" "\<forall>c \<in> set ws. isspace c" and w: "authority_word w"
  shows "clean_str (y @ ws @ w) = y"
proof -
  from y have hy: "\<not> isspace (hd y)" and ly: "\<not> isspace (last y)"
    by (auto simp: no_outer_whitespace_def)
  from authority_word_no_space [OF w] have wne: "w \<noteq> []" and wl: "\<not> isspace (last w)" by auto
  have "no_outer_whitespace (y @ ws @ w)"
    using y(1) hy wne wl by (simp add: no_outer_whitespace_def)
  then have "strip (y @ ws @ w) = y @ ws @ w" by (rule strip_id)
  moreover have "re_sub_authority (y @ ws @ w) = y"
    using ly by (intro re_sub_authority_last [OF ws w]) simp
  moreover have "strip y = y" using y(2) by (rule strip_id)
  ultimately show ?thesis by (simp add: clean_str_def)
qed

lemma has_trailing_authority_match:
  "has_trailing_authority s \<Longrightarrow> \<exists>p q r. s = p @ q \<and> authority_at q = Some r"
proof (induction s)
  case Nil
  then show ?case by simp
next
  case (Cons c cs)
  show ?case
  proof (cases "authority_at (c # cs)")
    case (Some r)
    then have "c # cs = [] @ (c # cs) \<and> authority_at (c # cs) = Some r" by simp
    then show ?thesis by blast
  next
    case None
    with Cons.prems have "has_trailing_authority cs" by simp
    from Cons.IH [OF this] obtain p q r where "cs = p @ q" "authority_at q = Some r" by blast
    then have "c # cs = (c # p) @ q \<and> authority_at q = Some r" by simp
    then show ?thesis by blast
  qed
qed

lemma last_word_append:
  assumes "ws \<noteq> []" and "\<forall>c \<in> set ws. isspace c" and "\<forall>c \<in> set w. \<not> isspace c"
  shows "last_word (p @ ws @ w) = w"
proof -
  have "rev ws \<noteq> []" using assms(1) by simp
  then obtain c cs where r: "rev ws = c # cs" by (cases "rev ws") auto
  then have "c \<in> set ws" by (metis list.set_intros(1) set_rev)
  with assms(2) have c: "isspace c" by blast
  have "takeWhile (\<lambda>c. \<not> isspace c) (rev w @ (c # cs @ rev p))
      = rev w @ takeWhile (\<lambda>c. \<not> isspace c) (c # cs @ rev p)"
    by (rule takeWhile_append2) (use assms(3) in auto)
  also have "\<dots> = rev w" using c by simp
  finally show ?thesis by (simp add: last_word_def r)
qed

lemma trailing_authority_word:
  assumes z: "no_outer_whitespace z" and h: "has_trailing_authority z"
  shows "\<exists>p ws w. z = p @ ws @ w \<and> ws \<noteq> [] \<and> (\<forall>c \<in> set ws. isspace c) \<and> authority_word w"
proof -
  from has_trailing_authority_match [OF h] obtain p q r where
    pq: "z = p @ q" and a: "authority_at q = Some r" by blast
  from authority_at_Some [OF a] obtain ws w where
    q: "q = ws @ w @ r" and ws: "ws \<noteq> []" "\<forall>c \<in> set ws. isspace c"
    and w: "authority_word w" and r: "r = [] \<or> r = [CHR 0x0A]" by blast
  have "r = []"
  proof (rule ccontr)
    assume "r \<noteq> []"
    with r have "r = [CHR 0x0A]" by simp
    with pq q have "last z = CHR 0x0A" and "z \<noteq> []" by simp_all
    with z show False by (simp add: no_outer_whitespace_def isspace_newline)
  qed
  with pq q ws w show ?thesis by auto
qed

lemma trailing_authority_ends:
  assumes "no_outer_whitespace z" and "has_trailing_authority z"
  shows "ends_with_authority_word z"
proof -
  from trailing_authority_word [OF assms] obtain p ws w where
    z: "z = p @ ws @ w" and ws: "ws \<noteq> []" "\<forall>c \<in> set ws. isspace c"
    and w: "authority_word w" by blast
  from authority_word_no_space [OF w] have "\<forall>c \<in> set w. \<not> isspace c" by simp
  from last_word_append [OF ws this] have "last_word z = w" by (simp add: z)
  with w ws z show ?thesis by (simp add: ends_with_authority_word_def)
qed

lemma ends_with_authority_split:
  assumes z: "no_outer_whitespace z" and e: "ends_with_authority_word z"
  shows "\<exists>y ws w. z = y @ ws @ w \<and> y \<noteq> [] \<and> no_outer_whitespace y \<and> ws \<noteq> []
     \<and> (\<forall>c \<in> set ws. isspace c) \<and> authority_word w"
proof -
  define w where "w = last_word z"
  define b where "b = rev (dropWhile (\<lambda>c. \<not> isspace c) (rev z))"
  define ws where "ws = rev (takeWhile isspace (rev b))"
  define y where "y = rev (dropWhile isspace (rev b))"
  from e have aw: "authority_word w" and lt: "length w < length z"
    by (simp_all add: ends_with_authority_word_def w_def)
  have "b @ w = rev (takeWhile (\<lambda>c. \<not> isspace c) (rev z)
      @ dropWhile (\<lambda>c. \<not> isspace c) (rev z))"
    by (simp only: b_def w_def last_word_def rev_append)
  also have "\<dots> = rev (rev z)" by (simp only: takeWhile_dropWhile_id)
  finally have zb: "z = b @ w" by simp
  with lt have bne: "b \<noteq> []" by auto
  then have dne: "dropWhile (\<lambda>c. \<not> isspace c) (rev z) \<noteq> []" by (simp add: b_def)
  from hd_dropWhile [OF dne] have "isspace (hd (rev b))" by (simp add: b_def)
  with bne have wsne: "ws \<noteq> []" unfolding ws_def by (cases "rev b") auto
  have wsp: "\<forall>c \<in> set ws. isspace c" unfolding ws_def by (auto dest: set_takeWhileD)
  have "y @ ws = rev (takeWhile isspace (rev b) @ dropWhile isspace (rev b))"
    by (simp only: y_def ws_def rev_append)
  also have "\<dots> = rev (rev b)" by (simp only: takeWhile_dropWhile_id)
  finally have bsplit: "b = y @ ws" by simp
  from zb bne z have hb: "\<not> isspace (hd b)" by (auto simp: no_outer_whitespace_def)
  have yne: "y \<noteq> []"
  proof
    assume "y = []"
    with bsplit have "b = ws" by simp
    with bne wsp have "isspace (hd b)" by auto
    with hb show False by simp
  qed
  then have "dropWhile isspace (rev b) \<noteq> []" by (simp add: y_def)
  from hd_dropWhile [OF this] have "\<not> isspace (last y)" using yne by (simp add: y_def last_rev)
  moreover have "hd y = hd b" using bsplit yne by simp
  ultimately have "no_outer_whitespace y" using hb by (simp add: no_outer_whitespace_def)
  with zb bsplit yne wsne wsp aw show ?thesis by auto
qed

lemma clean_str_fixed_iff:
  assumes z: "no_outer_whitespace z"
  shows "(clean_str z = z) = (\<not> ends_with_authority_word z)"
proof (cases "ends_with_authority_word z")
  case True
  from ends_with_authority_split [OF z True] obtain y ws w where
    s: "z = y @ ws @ w" and y: "y \<noteq> []" "no_outer_whitespace y"
    and ws: "ws \<noteq> []" "\<forall>c \<in> set ws. isspace c" and w: "authority_word w" by blast
  from clean_str_last_authority [OF y ws w] have "clean_str z = y" by (simp add: s)
  moreover have "length y < length z" using s ws(1) by simp
  ultimately have "clean_str z \<noteq> z" by auto
  with True show ?thesis by simp
next
  case False
  with trailing_authority_ends [OF z] have "\<not> has_trailing_authority z" by blast
  then have "re_sub_authority z = z" by (rule re_sub_fixed)
  with strip_id [OF z] have "clean_str z = z" by (simp add: clean_str_def)
  with False show ?thesis by simp
qed

text \<open>
  Claim C4, amended: one application of the cleaning removes exactly the last authority
  word of a name and the whitespace in front of it, nothing more: for a name \<open>y\<close> without
  whitespace at its ends, whitespace \<open>ws\<close> and an authority word \<open>w\<close>, cleaning
  \<open>y ws w\<close> gives \<open>y\<close>. So a string without whitespace at its ends, and so every
  cleaned form, is left as it is exactly when it does not end in an authority word with
  something in front of it; a name that carries two authority words is changed by the
  second cleaning too.
\<close>

theorem clean_strips_last_authority:
  "(y \<noteq> [] \<and> no_outer_whitespace y \<and> ws \<noteq> [] \<and> (\<forall>c \<in> set ws. isspace c)
      \<and> authority_word w
      \<longrightarrow> clean_scientific_name (PyStr (y @ ws @ w)) = Some y)
   \<and> (no_outer_whitespace z
      \<longrightarrow> (clean_scientific_name (PyStr z) = Some z) = (\<not> ends_with_authority_word z))
   \<and> (clean_scientific_name (PyStr x) = Some z
      \<longrightarrow> (clean_scientific_name (PyStr z) = Some z) = (\<not> ends_with_authority_word z))"
proof (intro conjI impI)
  assume "y \<noteq> [] \<and> no_outer_whitespace y \<and> ws \<noteq> [] \<and> (\<forall>c \<in> set ws. isspace c)
      \<and> authority_word w"
  then show "clean_scientific_name (PyStr (y @ ws @ w)) = Some y"
    by (simp add: clean_scientific_name_str clean_str_last_authority)
next
  assume "no_outer_whitespace z"
  from clean_str_fixed_iff [OF this]
  show "(clean_scientific_name (PyStr z) = Some z) = (\<not> ends_with_authority_word z)"
    by (simp add: clean_scientific_name_str)
next
  assume "clean_scientific_name (PyStr x) = Some z"
  then have "z = clean_str x" by (simp add: clean_scientific_name_str)
  then have "no_outer_whitespace z" by (simp add: clean_str_no_outer)
  from clean_str_fixed_iff [OF this]
  show "(clean_scientific_name (PyStr z) = Some z) = (\<not> ends_with_authority_word z)"
    by (simp add: clean_scientific_name_str)
qed

theorem clean_strips_last_authority_witness:
  "clean_scientific_name (PyStr (''Abelmoschus esculentus L.'' @ '' '' @ ''Moench''))
     = Some ''Abelmoschus esculentus L.''
   \<and> ends_with_authority_word ''Abelmoschus esculentus L.''
   \<and> clean_scientific_name (PyStr ''Abelmoschus esculentus L.'')
       \<noteq> Some ''Abelmoschus esculentus L.''
   \<and> clean_scientific_name (PyStr ''Oryza sativa L.'') = Some ''Oryza sativa''
   \<and> \<not> ends_with_authority_word ''Oryza sativa''
   \<and> clean_scientific_name (PyStr ''Oryza sativa'') = Some ''Oryza sativa''"
proof -
  have y: "''Abelmoschus esculentus L.'' \<noteq> []
      \<and> no_outer_whitespace ''Abelmoschus esculentus L.''
      \<and> '' '' \<noteq> [] \<and> (\<forall>c \<in> set '' ''. isspace c) \<and> authority_word ''Moench''"
    by (simp add: no_outer_whitespace_def isspace_def authority_word_literals)
  have e: "ends_with_authority_word ''Abelmoschus esculentus L.''"
    by code_simp
  have n: "no_outer_whitespace ''Abelmoschus esculentus L.''"
    using y by simp
  have o: "clean_scientific_name (PyStr ''Oryza sativa L.'') = Some ''Oryza sativa''"
    by code_simp
  have f: "\<not> ends_with_authority_word ''Oryza sativa''"
    by code_simp
  note a = clean_strips_last_authority [of "''Abelmoschus esculentus L.''" "'' ''" "''Moench''"
      "''Abelmoschus esculentus L.''" "''Oryza sativa L.''"]
  note b = clean_strips_last_authority [of "''Abelmoschus esculentus L.''" "'' ''" "''Moench''"
      "''Oryza sativa''" "''Oryza sativa L.''"]
  from a y have 1: "clean_scientific_name (PyStr (''Abelmoschus esculentus L.'' @ '' '' @ ''Moench''))
     = Some ''Abelmoschus esculentus L.''" by blast
  from a n e have 2: "clean_scientific_name (PyStr ''Abelmoschus esculentus L.'')
       \<noteq> Some ''Abelmoschus esculentus L.''" by blast
  from b o f have 3: "clean_scientific_name (PyStr ''Oryza sativa'') = Some ''Oryza sativa''"
    by blast
  from 1 2 3 e o f show ?thesis by blast
qed

text \<open>
  Claim C10: the name-cleaning function returns absent exactly for an input that is not a
  string, and the string it returns for a string has no whitespace at either end; this
  covers the empty string and the strings of whitespace only.
\<close>

theorem clean_result:
  "(clean_scientific_name v = None) = (v = NotStr)
   \<and> (\<forall>r. clean_scientific_name v = Some r \<longrightarrow> no_outer_whitespace r)"
proof (cases v)
  case (PyStr s)
  then show ?thesis by (simp add: clean_scientific_name_str clean_str_no_outer)
next
  case NotStr
  then show ?thesis by (simp add: clean_scientific_name_def)
qed

theorem clean_result_witness:
  "clean_scientific_name (PyStr '' Oryza sativa L. '') = Some ''Oryza sativa''
   \<and> no_outer_whitespace ''Oryza sativa''
   \<and> clean_scientific_name (PyStr []) = Some []
   \<and> clean_scientific_name (PyStr ''   '') = Some []
   \<and> no_outer_whitespace []"
proof -
  have a: "clean_scientific_name (PyStr '' Oryza sativa L. '') = Some ''Oryza sativa''"
    by code_simp
  have b: "clean_scientific_name (PyStr []) = Some []"
    by code_simp
  have c: "clean_scientific_name (PyStr ''   '') = Some []"
    by code_simp
  from clean_result [of "PyStr '' Oryza sativa L. ''"] a
  have "no_outer_whitespace ''Oryza sativa''" by simp
  moreover from clean_result [of "PyStr []"] b have "no_outer_whitespace []" by simp
  ultimately show ?thesis using a b c by simp
qed

text \<open>
  Claim C7 fails on the code: the name is split at its first space character, so for a
  name that begins with a space, and so contains one, the result is the empty string
  where the first whitespace-delimited token is the genus.
\<close>

theorem genus_of_leading_space:
  "CHR '' '' \<in> set '' Oryza sativa''
   \<and> first_ws_token '' Oryza sativa'' = ''Oryza''
   \<and> extract_genus (PyStr '' Oryza sativa'') = Some []"
  by code_simp

text \<open>
  What \<open>extract_genus\<close> returns, in general: the text before the first space character.
\<close>

lemma extract_genus_first_space:
  "extract_genus NotStr = None
   \<and> (CHR '' '' \<notin> set s \<longrightarrow> extract_genus (PyStr s) = None)
   \<and> (CHR '' '' \<in> set s \<longrightarrow>
        extract_genus (PyStr s) = Some (takeWhile (\<lambda>c. c \<noteq> CHR '' '') s))
   \<and> (CHR '' '' \<in> set s \<and> hd s \<noteq> CHR '' ''
        \<and> (\<forall>c \<in> set (takeWhile (\<lambda>c. c \<noteq> CHR '' '') s). \<not> isspace c) \<longrightarrow>
        extract_genus (PyStr s) = Some (first_ws_token s))"
proof -
  have 1: "extract_genus NotStr = None" by (simp add: extract_genus_def)
  have 2: "CHR '' '' \<notin> set s \<longrightarrow> extract_genus (PyStr s) = None"
    by (simp add: extract_genus_def)
  have 3: "CHR '' '' \<in> set s \<longrightarrow>
        extract_genus (PyStr s) = Some (takeWhile (\<lambda>c. c \<noteq> CHR '' '') s)"
    by (simp add: extract_genus_def hd_split_once)
  have 4: "extract_genus (PyStr s) = Some (first_ws_token s)"
    if sp: "CHR '' '' \<in> set s" and h: "hd s \<noteq> CHR '' ''"
      and ws: "\<forall>c \<in> set (takeWhile (\<lambda>c. c \<noteq> CHR '' '') s). \<not> isspace c"
  proof -
    from sp obtain c cs where s: "s = c # cs" by (cases s) auto
    with h have "c \<in> set (takeWhile (\<lambda>c. c \<noteq> CHR '' '') s)" by simp
    with ws have "\<not> isspace c" by blast
    with s have d: "dropWhile isspace s = s" by simp
    from takeWhile_not_space [OF ws] sp
    have "takeWhile (\<lambda>c. \<not> isspace c) s = takeWhile (\<lambda>c. c \<noteq> CHR '' '') s" by simp
    with d 3 sp show ?thesis by (simp add: first_ws_token_def)
  qed
  from 1 2 3 4 show ?thesis by blast
qed

section \<open>The cascade: proofs\<close>

lemma map_of_update:
  "map_of (AList.update k v al) k' = (if k' = k then Some v else map_of al k')"
  by (simp add: update_conv')

subsection \<open>process\<close>

lemma process_item_resolved:
  "map_of res n = Some r \<Longrightarrow> OTT_ID r \<noteq> None \<Longrightarrow> map_of (process_item lvl qm it res) n = Some r"
  by (auto simp: process_item_def Let_def unresolved_def map_of_update
      split: list.splits option.splits)


lemma fold_process_item_resolved:
  "map_of res n = Some r \<Longrightarrow> OTT_ID r \<noteq> None \<Longrightarrow>
   map_of (fold (process_item lvl qm) its res) n = Some r"
  by (induction its arbitrary: res) (auto simp: process_item_resolved)


lemma process_tnrs_results_resolved:
  "map_of res n = Some r \<Longrightarrow> OTT_ID r \<noteq> None \<Longrightarrow>
   map_of (process_tnrs_results resp res lvl qm) n = Some r"
  by (auto simp: process_tnrs_results_def fold_process_item_resolved split: option.splits)


subsection \<open>stage 1\<close>

lemma stage1_batch_resolved:
  "map_of (all_results st) n = Some r \<Longrightarrow> OTT_ID r \<noteq> None \<Longrightarrow>
   map_of (all_results (stage1_batch svc names i st)) n = Some r"
  by (simp add: stage1_batch_def Let_def query_ott_tnrs_def process_tnrs_results_resolved
      split: prod.splits)

lemma fold_stage1_batch_resolved:
  "map_of (all_results st) n = Some r \<Longrightarrow> OTT_ID r \<noteq> None \<Longrightarrow>
   map_of (all_results (fold (stage1_batch svc names) is st)) n = Some r"
  by (induction "is" arbitrary: st) (auto simp: stage1_batch_resolved)

lemma stage1_resolved:
  "map_of (all_results st) n = Some r \<Longrightarrow> OTT_ID r \<noteq> None \<Longrightarrow>
   map_of (all_results (stage1 svc names st)) n = Some r"
  by (simp add: stage1_def fold_stage1_batch_resolved)




subsection \<open>still failed\<close>


lemma still_failed_Inr:
  "still_failed res ns = Inr fs \<Longrightarrow>
   fs = filter (unresolved res) ns \<and> (\<forall>n \<in> set ns. map_of res n \<noteq> None)"
  by (induction ns arbitrary: fs) (auto simp: unresolved_def split: option.splits sum.splits)

subsection \<open>stage 2\<close>



lemma snd_fold_cleaned_step:
  "snd (fold cleaned_step ns (m, q)) = q @ cleaned_queries ns"
  by (induction ns arbitrary: m q)
     (auto simp: cleaned_step_def cleaned_queries_def clean_scientific_name_def clean_str_def)

lemma stage2_unfold:
  "stage2 svc failed st =
     (let q = cleaned_queries failed;
          st' = (if q \<noteq> [] then
                   \<lparr>all_results = process_tnrs_results (svc (length (calls st)) (remdups q))
                      (all_results st) ''Species - Cleaned'' (fst (fold cleaned_step failed ([], []))),
                    calls = calls st @ [remdups q]\<rparr>
                 else st)
      in case still_failed (all_results st') failed of
           Inl e \<Rightarrow> Inl e
         | Inr failed' \<Rightarrow> Inr (st', failed'))"
proof -
  obtain m q where f: "fold cleaned_step failed ([], []) = (m, q)" by (cases "fold cleaned_step failed ([], [])")
  have "q = cleaned_queries failed" using snd_fold_cleaned_step [of failed "[]" "[]"] f by simp
  then show ?thesis
    by (auto simp: stage2_def f Let_def query_ott_tnrs_def split: sum.splits)
qed

lemma stage2_resolved:
  assumes "stage2 svc failed st = Inr (st', failed')"
    and "map_of (all_results st) n = Some r" and "OTT_ID r \<noteq> None"
  shows "map_of (all_results st') n = Some r"
  using assms
  by (auto simp: stage2_unfold Let_def process_tnrs_results_resolved split: sum.splits if_splits)

subsection \<open>genus step\<close>

lemma genus_update_other:
  "genus_update it t res = Inr res' \<Longrightarrow> n \<noteq> t \<Longrightarrow> map_of res' n = map_of res n"
  by (auto simp: genus_update_def map_of_update split: option.splits if_splits list.splits)

lemma genus_update_resolved:
  "genus_update it t res = Inr res' \<Longrightarrow> map_of res n = Some r \<Longrightarrow> OTT_ID r \<noteq> None \<Longrightarrow>
   map_of res' n = Some r"
  by (auto simp: genus_update_def map_of_update split: option.splits if_splits list.splits)



lemma genus_targets_other:
  "genus_targets it ts res = Inr res' \<Longrightarrow> n \<notin> set ts \<Longrightarrow> map_of res' n = map_of res n"
proof (induction ts arbitrary: res)
  case Nil
  then show ?case by simp
next
  case (Cons a ts)
  from Cons.prems(1) obtain res1 where 1: "genus_update it a res = Inr res1"
    and 2: "genus_targets it ts res1 = Inr res'"
    by (auto split: sum.splits)
  from Cons.prems(2) have "n \<noteq> a" "n \<notin> set ts" by auto
  with Cons.IH [OF 2] genus_update_other [OF 1] show ?case by simp
qed

lemma genus_targets_resolved:
  "genus_targets it ts res = Inr res' \<Longrightarrow> map_of res n = Some r \<Longrightarrow> OTT_ID r \<noteq> None \<Longrightarrow>
   map_of res' n = Some r"
proof (induction ts arbitrary: res)
  case Nil
  then show ?case by simp
next
  case (Cons a ts)
  from Cons.prems(1) obtain res1 where 1: "genus_update it a res = Inr res1"
    and 2: "genus_targets it ts res1 = Inr res'"
    by (auto split: sum.splits)
  from genus_update_resolved [OF 1 Cons.prems(2,3)] Cons.IH [OF 2] Cons.prems(3)
  show ?case by simp
qed



lemma genus_items_resolved:
  "genus_items gm its res = Inr res' \<Longrightarrow> map_of res n = Some r \<Longrightarrow> OTT_ID r \<noteq> None \<Longrightarrow>
   map_of res' n = Some r"
proof (induction its arbitrary: res)
  case Nil
  then show ?case by simp
next
  case (Cons it its)
  show ?case
  proof (cases "map_of gm (name it)")
    case None
    with Cons show ?thesis by simp
  next
    case (Some ts)
    with Cons.prems(1) obtain res1 where 1: "genus_targets it ts res = Inr res1"
      and 2: "genus_items gm its res1 = Inr res'"
      by (auto split: sum.splits)
    from genus_targets_resolved [OF 1 Cons.prems(2,3)] Cons.IH [OF 2] Cons.prems(3)
    show ?thesis by simp
  qed
qed



subsection \<open>final labels\<close>

lemma finalize_failed_other:
  "finalize_failed ns res = Inr res' \<Longrightarrow> n \<notin> set ns \<Longrightarrow> map_of res' n = map_of res n"
proof (induction ns arbitrary: res)
  case Nil
  then show ?case by simp
next
  case (Cons a ns)
  from Cons.prems(2) have na: "n \<noteq> a" and nn: "n \<notin> set ns" by auto
  from Cons.prems(1) obtain r where r: "map_of res a = Some r" by (auto split: option.splits)
  let ?res1 = "if Match_Level r \<notin> set [''Genus'', ''No Match Final - Genus Failed'']
               then AList.update a (r\<lparr>Match_Level := ''No Match Final''\<rparr>) res else res"
  from Cons.prems(1) r have 2: "finalize_failed ns ?res1 = Inr res'" by simp
  have "map_of ?res1 n = map_of res n" using na by (simp add: map_of_update)
  with Cons.IH [OF 2 nn] show ?case by simp
qed

lemma finalize_failed_present:
  "finalize_failed ns res = Inr res' \<Longrightarrow> map_of res n \<noteq> None \<Longrightarrow> map_of res' n \<noteq> None"
proof (induction ns arbitrary: res)
  case Nil
  then show ?case by simp
next
  case (Cons a ns)
  from Cons.prems(1) obtain r where r: "map_of res a = Some r" by (auto split: option.splits)
  let ?res1 = "if Match_Level r \<notin> set [''Genus'', ''No Match Final - Genus Failed'']
               then AList.update a (r\<lparr>Match_Level := ''No Match Final''\<rparr>) res else res"
  from Cons.prems(1) r have 2: "finalize_failed ns ?res1 = Inr res'" by simp
  have "map_of ?res1 n \<noteq> None" using Cons.prems(2) by (simp add: map_of_update)
  from Cons.IH [OF 2 this] show ?case .
qed


subsection \<open>fill\<close>

lemma fill_step_resolved:
  "map_of res n = Some r \<Longrightarrow> OTT_ID r \<noteq> None \<Longrightarrow> map_of (fill_step a res) n = Some r"
  by (auto simp: fill_step_def map_of_update split: option.splits)

lemma fill_step_present:
  "map_of res n \<noteq> None \<Longrightarrow> map_of (fill_step a res) n \<noteq> None"
  by (auto simp: fill_step_def map_of_update split: option.splits)

lemma fold_fill_step_resolved:
  "map_of res n = Some r \<Longrightarrow> OTT_ID r \<noteq> None \<Longrightarrow> map_of (fold fill_step ns res) n = Some r"
  by (induction ns arbitrary: res) (auto simp: fill_step_resolved)

lemma fill_missing_resolved:
  "map_of res n = Some r \<Longrightarrow> OTT_ID r \<noteq> None \<Longrightarrow> map_of (fill_missing ns res) n = Some r"
  by (auto simp: fill_missing_def fold_fill_step_resolved)

lemma stage3_resolved:
  assumes s: "stage3 svc failed st = Inr st'"
    and n: "map_of (all_results st) n = Some r" and id: "OTT_ID r \<noteq> None"
  shows "map_of (all_results st') n = Some r"
proof -
  obtain gm gq where f: "fold genus_step failed ([], []) = (gm, gq)"
    by (cases "fold genus_step failed ([], [])")
  define mid where "mid =
    (if gq \<noteq> [] then
       (case query_ott_tnrs svc gq (calls st) of
          (None, log) \<Rightarrow> Inr (st\<lparr>calls := log\<rparr>)
        | (Some items, log) \<Rightarrow>
            (case genus_items gm items (all_results st) of
               Inl e \<Rightarrow> Inl e
             | Inr results_dict \<Rightarrow> Inr \<lparr>all_results = results_dict, calls = log\<rparr>))
     else Inr st)"
  from s f obtain st1 fs res where m: "mid = Inr st1"
    and sf: "still_failed (all_results st1) failed = Inr fs"
    and ff: "finalize_failed fs (all_results st1) = Inr res"
    and st': "st' = st1\<lparr>all_results := res\<rparr>"
    unfolding stage3_def mid_def by (auto split: sum.splits)
  have 1: "map_of (all_results st1) n = Some r"
    using m n id unfolding mid_def
    by (auto simp: query_ott_tnrs_def genus_items_resolved
        split: if_splits option.splits sum.splits)
  from still_failed_Inr [OF sf] have "fs = filter (unresolved (all_results st1)) failed" by simp
  with 1 id have "n \<notin> set fs" by (simp add: unresolved_def)
  from finalize_failed_other [OF ff this] 1 st' show ?thesis by simp
qed

text \<open>
  Claim C3: a record with an identifier is the same record after every later piece of the
  cascade: after any response is processed, after the remaining batches of step 1, after
  step 2, after step 3 and after the final pass before the merge.
\<close>

theorem resolved_record_kept:
  assumes "map_of (all_results st) nm = Some r" and "OTT_ID r \<noteq> None"
  shows "map_of (process_tnrs_results resp (all_results st) level qm) nm = Some r
    \<and> map_of (all_results (stage1 svc names st)) nm = Some r
    \<and> (\<forall>st' failed'. stage2 svc failed st = Inr (st', failed')
          \<longrightarrow> map_of (all_results st') nm = Some r)
    \<and> (\<forall>st'. stage3 svc failed st = Inr st' \<longrightarrow> map_of (all_results st') nm = Some r)
    \<and> map_of (fill_missing names (all_results st)) nm = Some r"
  using assms
  by (auto simp: process_tnrs_results_resolved stage1_resolved fill_missing_resolved
      dest: stage2_resolved stage3_resolved)

lemma genus_targets_candidate:
  assumes "genus_targets it targets res = Inr res'" and "t \<in> set targets"
    and "map_of res t = Some r" and "OTT_ID r = None" and "matches it = m # ms"
  shows "map_of res' t =
     Some (if \<exists>rk. rank (taxon m) = Some rk
                \<and> lower rk \<in> {''genus'', ''family'', ''order'', ''class'', ''phylum'', ''kingdom''}
           then matched_record m (name it) ''Genus'' else r)"
  using assms(1-4)
proof (induction targets arbitrary: res r)
  case Nil
  then show ?case by simp
next
  case (Cons a ts)
  let ?acc = "\<exists>rk. rank (taxon m) = Some rk
                \<and> lower rk \<in> {''genus'', ''family'', ''order'', ''class'', ''phylum'', ''kingdom''}"
  let ?new = "\<lambda>r. if ?acc then matched_record m (name it) ''Genus'' else r"
  from Cons.prems(1) obtain res1 where 1: "genus_update it a res = Inr res1"
    and 2: "genus_targets it ts res1 = Inr res'"
    by (auto split: sum.splits)
  show ?case
  proof (cases "a = t")
    case False
    with Cons.prems(2) have t: "t \<in> set ts" by simp
    from genus_update_other [OF 1, of t] False Cons.prems(3)
    have "map_of res1 t = Some r" by simp
    from Cons.IH [OF 2 t this Cons.prems(4)] show ?thesis .
  next
    case True
    have acc: "(lower (case rank (taxon m) of None \<Rightarrow> [] | Some rk \<Rightarrow> rk) \<in> set accepted_ranks)
                = ?acc"
      by (cases "rank (taxon m)") (auto simp: accepted_ranks_def lower_def)
    from 1 True Cons.prems(3,4) assms(5) acc
    have r1: "map_of res1 t = Some (?new r)"
      by (auto simp: genus_update_def map_of_update split: if_splits)
    show ?thesis
    proof (cases "t \<in> set ts")
      case False
      from genus_targets_other [OF 2 False] r1 show ?thesis by simp
    next
      case t: True
      show ?thesis
      proof (cases "OTT_ID (?new r) = None")
        case True
        have "\<And>P (a::resolution) b. (if P then a else if P then a else b) = (if P then a else b)"
          by simp
        then have idem: "?new (?new r) = ?new r" .
        from Cons.IH [OF 2 t r1 True] have "map_of res' t = Some (?new (?new r))" .
        then show ?thesis by (simp only: idem)
      next
        case False
        from genus_targets_resolved [OF 2 r1 False] show ?thesis .
      qed
    qed
  qed
qed

text \<open>The names listed under a genus in \<open>genus_map\<close> are names with that genus.\<close>

lemma fold_genus_step_genus:
  "fold genus_step ns (gm, gq) = (gm', gq') \<Longrightarrow>
   \<forall>g l. map_of gm g = Some l \<longrightarrow> (\<forall>n \<in> set l. extract_genus (PyStr n) = Some g) \<Longrightarrow>
   \<forall>g l. map_of gm' g = Some l \<longrightarrow> (\<forall>n \<in> set l. extract_genus (PyStr n) = Some g)"
proof (induction ns arbitrary: gm gq)
  case Nil
  then show ?case by simp
next
  case (Cons a ns)
  obtain gm1 gq1 where s: "genus_step a (gm, gq) = (gm1, gq1)"
    by (cases "genus_step a (gm, gq)")
  have 1: "\<forall>g l. map_of gm1 g = Some l \<longrightarrow> (\<forall>n \<in> set l. extract_genus (PyStr n) = Some g)"
  proof (cases "extract_genus (PyStr a)")
    case None
    with s Cons.prems(2) show ?thesis by (simp add: genus_step_def)
  next
    case (Some genus)
    show ?thesis
    proof (cases "genus = []")
      case True
      with s Some Cons.prems(2) show ?thesis by (simp add: genus_step_def)
    next
      case False
      let ?old = "case map_of gm genus of None \<Rightarrow> [] | Some l \<Rightarrow> l"
      from s Some False have gm1: "gm1 = AList.update genus (?old @ [a]) gm"
        by (auto simp: genus_step_def)
      have old: "\<forall>n \<in> set ?old. extract_genus (PyStr n) = Some genus"
        using Cons.prems(2) by (cases "map_of gm genus") auto
      show ?thesis
      proof (intro allI impI ballI)
        fix g l n
        assume l: "map_of gm1 g = Some l" and n: "n \<in> set l"
        show "extract_genus (PyStr n) = Some g"
        proof (cases "g = genus")
          case True
          with l gm1 have "l = ?old @ [a]" by (simp add: map_of_update)
          with n old Some True show ?thesis by auto
        next
          case False
          with l gm1 have "map_of gm g = Some l" by (simp add: map_of_update)
          with Cons.prems(2) n show ?thesis by blast
        qed
      qed
    qed
  qed
  from Cons.prems(1) s have "fold genus_step ns (gm1, gq1) = (gm', gq')" by simp
  from Cons.IH [OF this 1] show ?case .
qed

lemma genus_step_keeps:
  assumes "genus_step a (gm, gq) = (gm1, gq1)"
    and "map_of gm g = Some l" and "t \<in> set l" and "g \<in> set gq"
  shows "\<exists>l'. map_of gm1 g = Some l' \<and> t \<in> set l' \<and> g \<in> set gq1"
proof (cases "extract_genus (PyStr a)")
  case None
  with assms show ?thesis by (simp add: genus_step_def)
next
  case (Some genus)
  show ?thesis
  proof (cases "genus = []")
    case True
    with Some assms show ?thesis by (simp add: genus_step_def)
  next
    case False
    let ?old = "case map_of gm genus of None \<Rightarrow> [] | Some l \<Rightarrow> l"
    from assms(1) Some False have gm1: "gm1 = AList.update genus (?old @ [a]) gm"
      and gq1: "gq1 = (if genus \<in> set gq then gq else gq @ [genus])"
      by (auto simp: genus_step_def)
    from gq1 assms(4) have q: "g \<in> set gq1" by simp
    show ?thesis
    proof (cases "g = genus")
      case True
      with assms(2,3) gm1 have "map_of gm1 g = Some (l @ [a]) \<and> t \<in> set (l @ [a])"
        by (simp add: map_of_update)
      with q show ?thesis by blast
    next
      case False
      with assms(2) gm1 have "map_of gm1 g = Some l" by (simp add: map_of_update)
      with assms(3) q show ?thesis by blast
    qed
  qed
qed

lemma genus_step_adds:
  assumes "genus_step a (gm, gq) = (gm1, gq1)"
    and "extract_genus (PyStr a) = Some g" and "g \<noteq> []"
  shows "\<exists>l'. map_of gm1 g = Some l' \<and> a \<in> set l' \<and> g \<in> set gq1"
proof -
  let ?old = "case map_of gm g of None \<Rightarrow> [] | Some l \<Rightarrow> l"
  from assms have gm1: "gm1 = AList.update g (?old @ [a]) gm"
    and gq1: "gq1 = (if g \<in> set gq then gq else gq @ [g])"
    by (auto simp: genus_step_def)
  from gm1 have "map_of gm1 g = Some (?old @ [a])" by (simp add: map_of_update)
  moreover from gq1 have "g \<in> set gq1" by simp
  ultimately show ?thesis by simp
qed

lemma fold_genus_step_keeps:
  "fold genus_step ns (gm, gq) = (gm', gq') \<Longrightarrow>
   map_of gm g = Some l \<Longrightarrow> t \<in> set l \<Longrightarrow> g \<in> set gq \<Longrightarrow>
   \<exists>l'. map_of gm' g = Some l' \<and> t \<in> set l' \<and> g \<in> set gq'"
proof (induction ns arbitrary: gm gq l)
  case Nil
  then show ?case by simp
next
  case (Cons a ns)
  obtain gm1 gq1 where s: "genus_step a (gm, gq) = (gm1, gq1)"
    by (cases "genus_step a (gm, gq)")
  from genus_step_keeps [OF s Cons.prems(2,3,4)] obtain l1 where
    1: "map_of gm1 g = Some l1" "t \<in> set l1" "g \<in> set gq1" by blast
  from Cons.prems(1) s have "fold genus_step ns (gm1, gq1) = (gm', gq')" by simp
  from Cons.IH [OF this 1] show ?case .
qed

lemma fold_genus_step_member:
  "fold genus_step ns (gm, gq) = (gm', gq') \<Longrightarrow> t \<in> set ns \<Longrightarrow>
   extract_genus (PyStr t) = Some g \<Longrightarrow> g \<noteq> [] \<Longrightarrow>
   \<exists>l'. map_of gm' g = Some l' \<and> t \<in> set l' \<and> g \<in> set gq'"
proof (induction ns arbitrary: gm gq)
  case Nil
  then show ?case by simp
next
  case (Cons a ns)
  obtain gm1 gq1 where s: "genus_step a (gm, gq) = (gm1, gq1)"
    by (cases "genus_step a (gm, gq)")
  from Cons.prems(1) s have f: "fold genus_step ns (gm1, gq1) = (gm', gq')" by simp
  show ?case
  proof (cases "t = a")
    case True
    with genus_step_adds [OF s _ Cons.prems(4)] Cons.prems(3) obtain l1 where
      1: "map_of gm1 g = Some l1" "t \<in> set l1" "g \<in> set gq1" by blast
    from fold_genus_step_keeps [OF f 1] show ?thesis .
  next
    case False
    with Cons.prems(2) have "t \<in> set ns" by simp
    from Cons.IH [OF f this Cons.prems(3,4)] show ?thesis .
  qed
qed

lemma genus_items_other:
  "genus_items gm its res = Inr res' \<Longrightarrow>
   \<forall>i \<in> set its. \<forall>ts. map_of gm (name i) = Some ts \<longrightarrow> t \<notin> set ts \<Longrightarrow>
   map_of res' t = map_of res t"
proof (induction its arbitrary: res)
  case Nil
  then show ?case by simp
next
  case (Cons it its)
  from Cons.prems(2) have rest:
    "\<forall>i \<in> set its. \<forall>ts. map_of gm (name i) = Some ts \<longrightarrow> t \<notin> set ts" by simp
  show ?case
  proof (cases "map_of gm (name it)")
    case None
    with Cons.prems(1) have "genus_items gm its res = Inr res'" by simp
    from Cons.IH [OF this rest] show ?thesis .
  next
    case (Some ts)
    with Cons.prems(1) obtain res1 where 1: "genus_targets it ts res = Inr res1"
      and 2: "genus_items gm its res1 = Inr res'"
      by (auto split: sum.splits)
    from Cons.prems(2) Some have "t \<notin> set ts" by simp
    from genus_targets_other [OF 1 this] Cons.IH [OF 2 rest] show ?thesis by simp
  qed
qed

lemma genus_items_append:
  "genus_items gm (xs @ ys) res =
     (case genus_items gm xs res of Inl e \<Rightarrow> Inl e | Inr res1 \<Rightarrow> genus_items gm ys res1)"
  by (induction xs arbitrary: res) (auto split: option.splits sum.splits)

lemma finalize_failed_member:
  "finalize_failed ns res = Inr res' \<Longrightarrow> n \<in> set ns \<Longrightarrow> map_of res n = Some r \<Longrightarrow>
   map_of res' n =
     Some (if Match_Level r \<in> {''Genus'', ''No Match Final - Genus Failed''} then r
           else r\<lparr>Match_Level := ''No Match Final''\<rparr>)"
proof (induction ns arbitrary: res r)
  case Nil
  then show ?case by simp
next
  case (Cons a ns)
  let ?fin = "\<lambda>r. if Match_Level r \<in> {''Genus'', ''No Match Final - Genus Failed''} then r
           else r\<lparr>Match_Level := ''No Match Final''\<rparr>"
  from Cons.prems(1) obtain ra where ra: "map_of res a = Some ra" by (auto split: option.splits)
  let ?res1 = "if Match_Level ra \<notin> set [''Genus'', ''No Match Final - Genus Failed'']
               then AList.update a (ra\<lparr>Match_Level := ''No Match Final''\<rparr>) res else res"
  from Cons.prems(1) ra have 2: "finalize_failed ns ?res1 = Inr res'" by simp
  show ?case
  proof (cases "a = n")
    case False
    with Cons.prems(2) have n: "n \<in> set ns" by simp
    from False Cons.prems(3) have "map_of ?res1 n = Some r" by (simp add: map_of_update)
    from Cons.IH [OF 2 n this] show ?thesis .
  next
    case True
    with ra Cons.prems(3) have rar: "ra = r" by simp
    have r1: "map_of ?res1 n = Some (?fin r)"
      using True rar Cons.prems(3) by (simp add: map_of_update)
    have idem: "?fin (?fin r) = ?fin r" by simp
    show ?thesis
    proof (cases "n \<in> set ns")
      case False
      from finalize_failed_other [OF 2 False] r1 show ?thesis by simp
    next
      case n: True
      from Cons.IH [OF 2 n r1] have "map_of res' n = Some (?fin (?fin r))" .
      then show ?thesis by (simp only: idem)
    qed
  qed
qed

text \<open>
  Claim C6: let step 3 finish, and let the response to its call hold exactly one item for
  the genus of a failed name whose record has no identifier, an item with a candidate.
  If the rank of the candidate, in lower case, is one of genus, family, order, class,
  phylum, kingdom, the name ends step 3 with the record of a genus match: level
  \<open>Genus\<close>, its genus as match query. With any other rank, \<open>species\<close> among them, or
  with no rank, the name stays without an identifier: its record is the one it had, with
  the final label of an unmatched name.
\<close>

theorem genus_stage_acceptance:
  assumes s: "stage3 svc failed_names st = Inr st'"
    and resp: "svc (length (calls st)) (snd (fold genus_step failed_names ([], [])))
                 = Some (pre @ it # post)"
    and only: "\<forall>i \<in> set pre \<union> set post. name i \<noteq> name it"
    and t: "t \<in> set failed_names"
    and g: "extract_genus (PyStr t) = Some (name it)" and ne: "name it \<noteq> []"
    and r: "map_of (all_results st) t = Some r" and id: "OTT_ID r = None"
    and m: "matches it = m # ms"
  shows "map_of (all_results st') t =
     Some (if \<exists>rk. rank (taxon m) = Some rk
                \<and> lower rk \<in> {''genus'', ''family'', ''order'', ''class'', ''phylum'', ''kingdom''}
           then matched_record m (name it) ''Genus''
           else if Match_Level r \<in> {''Genus'', ''No Match Final - Genus Failed''} then r
           else r\<lparr>Match_Level := ''No Match Final''\<rparr>)"
proof -
  define acc where "acc \<longleftrightarrow> (\<exists>rk. rank (taxon m) = Some rk
                \<and> lower rk \<in> {''genus'', ''family'', ''order'', ''class'', ''phylum'', ''kingdom''})"
  let ?M = "matched_record m (name it) ''Genus''"
  let ?fin = "\<lambda>r. if Match_Level r \<in> {''Genus'', ''No Match Final - Genus Failed''} then r
           else r\<lparr>Match_Level := ''No Match Final''\<rparr>"
  obtain gm gq where f: "fold genus_step failed_names ([], []) = (gm, gq)"
    by (cases "fold genus_step failed_names ([], [])")
  from fold_genus_step_member [OF f t g ne] obtain targets where
    tg: "map_of gm (name it) = Some targets" and tt: "t \<in> set targets"
    and gq: "name it \<in> set gq" by blast
  from gq have gqne: "gq \<noteq> []" by auto
  from resp f have sv: "svc (length (calls st)) gq = Some (pre @ it # post)" by simp
  from s f gqne sv obtain res1 fs res2 where
    gi: "genus_items gm (pre @ it # post) (all_results st) = Inr res1"
    and sf: "still_failed res1 failed_names = Inr fs"
    and ff: "finalize_failed fs res1 = Inr res2"
    and st': "all_results st' = res2"
    unfolding stage3_def by (auto simp: query_ott_tnrs_def split: sum.splits)
  from gi obtain ra where a: "genus_items gm pre (all_results st) = Inr ra"
    and b: "genus_items gm (it # post) ra = Inr res1"
    by (auto simp: genus_items_append split: sum.splits)
  from b tg obtain rb where c: "genus_targets it targets ra = Inr rb"
    and d: "genus_items gm post rb = Inr res1"
    by (auto split: sum.splits)
  have gen: "\<forall>g l. map_of gm g = Some l \<longrightarrow> (\<forall>n \<in> set l. extract_genus (PyStr n) = Some g)"
    by (rule fold_genus_step_genus [OF f]) simp
  have other: "\<forall>i \<in> set pre \<union> set post. \<forall>ts. map_of gm (name i) = Some ts \<longrightarrow> t \<notin> set ts"
  proof (intro ballI allI impI)
    fix i ts
    assume i: "i \<in> set pre \<union> set post" and ts: "map_of gm (name i) = Some ts"
    show "t \<notin> set ts"
    proof
      assume "t \<in> set ts"
      with gen ts have "extract_genus (PyStr t) = Some (name i)" by blast
      with g have "name i = name it" by simp
      with only i show False by blast
    qed
  qed
  from other have opre: "\<forall>i \<in> set pre. \<forall>ts. map_of gm (name i) = Some ts \<longrightarrow> t \<notin> set ts"
    and opost: "\<forall>i \<in> set post. \<forall>ts. map_of gm (name i) = Some ts \<longrightarrow> t \<notin> set ts"
    by blast+
  from genus_items_other [OF a opre] r have ra: "map_of ra t = Some r" by simp
  have rb: "map_of rb t = Some (if acc then ?M else r)"
    unfolding acc_def by (rule genus_targets_candidate [OF c tt ra id m])
  from genus_items_other [OF d opost] rb
  have r1: "map_of res1 t = Some (if acc then ?M else r)" by simp
  from still_failed_Inr [OF sf] have fs: "fs = filter (unresolved res1) failed_names" by simp
  have lvl: "?fin ?M = ?M" by (simp add: matched_record_def)
  have "map_of res2 t = Some (if acc then ?M else ?fin r)"
  proof (cases "OTT_ID (if acc then ?M else r) = None")
    case True
    with r1 t fs have "t \<in> set fs" by (simp add: unresolved_def)
    from finalize_failed_member [OF ff this r1]
    have "map_of res2 t = Some (?fin (if acc then ?M else r))" .
    moreover have "?fin (if acc then ?M else r) = (if acc then ?fin ?M else ?fin r)"
      by (rule if_distrib)
    ultimately show ?thesis by (simp only: lvl)
  next
    case False
    with id have a: acc by (cases acc) simp_all
    from False r1 fs have "t \<notin> set fs" by (simp add: unresolved_def)
    from finalize_failed_other [OF ff this] r1 have "map_of res2 t = Some (if acc then ?M else r)"
      by simp
    with a show ?thesis by simp
  qed
  then show ?thesis unfolding acc_def st' .
qed

theorem genus_stage_acceptance_witness:
  "stage3 (service_hits 7 ''Family'') [''Oryza sativa''] unmatched_state
     = Inr \<lparr>all_results =
              [(''Oryza sativa'',
                \<lparr>Primary_Matched_Name = Some ''Oryza'', Synonyms = Some [],
                 OTT_ID = Some 7, Rank = Some ''Family'', Match_Query = ''Oryza'',
                 Match_Level = ''Genus'', Approximate_Match = False,
                 Is_Synonym_Input = False\<rparr>)],
            calls = [[''Oryza sativa''], [''Oryza'']]\<rparr>
   \<and> stage3 (service_hits 7 ''species'') [''Oryza sativa''] unmatched_state
     = Inr \<lparr>all_results =
              [(''Oryza sativa'', unmatched_record ''Oryza sativa'' ''No Match Final'')],
            calls = [[''Oryza sativa''], [''Oryza'']]\<rparr>
   \<and> map_of (all_results unmatched_state) ''Oryza sativa''
     = Some (unmatched_record ''Oryza sativa'' ''No Match Initial'')
   \<and> extract_genus (PyStr ''Oryza sativa'') = Some ''Oryza''"
proof -
  let ?gen = "\<lparr>Primary_Matched_Name = Some ''Oryza'', Synonyms = Some [],
                 OTT_ID = Some 7, Rank = Some ''Family'', Match_Query = ''Oryza'',
                 Match_Level = ''Genus'', Approximate_Match = False,
                 Is_Synonym_Input = False\<rparr>"
  let ?fam = "\<lparr>all_results = [(''Oryza sativa'', ?gen)],
            calls = [[''Oryza sativa''], [''Oryza'']]\<rparr>"
  let ?spe = "\<lparr>all_results =
              [(''Oryza sativa'', unmatched_record ''Oryza sativa'' ''No Match Final'')],
            calls = [[''Oryza sativa''], [''Oryza'']]\<rparr>"
  have a: "stage3 (service_hits 7 ''Family'') [''Oryza sativa''] unmatched_state = Inr ?fam"
    by code_simp
  have b: "stage3 (service_hits 7 ''species'') [''Oryza sativa''] unmatched_state = Inr ?spe"
    by code_simp
  have q: "snd (fold genus_step [''Oryza sativa''] ([], [])) = [''Oryza'']"
    by code_simp
  have l: "length (calls unmatched_state) = 1"
    by (simp add: unmatched_state_def)
  have ra: "service_hits 7 ''Family'' (length (calls unmatched_state))
       (snd (fold genus_step [''Oryza sativa''] ([], [])))
     = Some ([] @ candidate ''Oryza'' 7 ''Family'' # [])"
    unfolding q l by (simp add: service_hits_def)
  have rb: "service_hits 7 ''species'' (length (calls unmatched_state))
       (snd (fold genus_step [''Oryza sativa''] ([], [])))
     = Some ([] @ candidate ''Oryza'' 7 ''species'' # [])"
    unfolding q l by (simp add: service_hits_def)
  have oa: "\<forall>i \<in> set [] \<union> set []. name i \<noteq> name (candidate ''Oryza'' 7 ''Family'')" by simp
  have ob: "\<forall>i \<in> set [] \<union> set []. name i \<noteq> name (candidate ''Oryza'' 7 ''species'')" by simp
  have t: "''Oryza sativa'' \<in> set [''Oryza sativa'']" by simp
  have g: "extract_genus (PyStr ''Oryza sativa'') = Some ''Oryza''"
    by code_simp
  have ga: "extract_genus (PyStr ''Oryza sativa'') = Some (name (candidate ''Oryza'' 7 ''Family''))"
    using g by (simp add: candidate_def)
  have gb: "extract_genus (PyStr ''Oryza sativa'') = Some (name (candidate ''Oryza'' 7 ''species''))"
    using g by (simp add: candidate_def)
  have na: "name (candidate ''Oryza'' 7 ''Family'') \<noteq> []" by (simp add: candidate_def)
  have nb: "name (candidate ''Oryza'' 7 ''species'') \<noteq> []" by (simp add: candidate_def)
  have m: "map_of (all_results unmatched_state) ''Oryza sativa''
     = Some (unmatched_record ''Oryza sativa'' ''No Match Initial'')"
    by (simp add: unmatched_state_def unmatched_oryza_def)
  have n: "OTT_ID (unmatched_record ''Oryza sativa'' ''No Match Initial'') = None"
    by (simp add: unmatched_record_def)
  have ma: "matches (candidate ''Oryza'' 7 ''Family'')
     = hd (matches (candidate ''Oryza'' 7 ''Family'')) # []"
    by (simp add: candidate_def)
  have mb: "matches (candidate ''Oryza'' 7 ''species'')
     = hd (matches (candidate ''Oryza'' 7 ''species'')) # []"
    by (simp add: candidate_def)
  note genus_stage_acceptance [OF a ra oa t ga na m n ma]
    genus_stage_acceptance [OF b rb ob t gb nb m n mb]
  with a b m g show ?thesis by simp
qed

text \<open>
  Claim C9: when the genus step handles an item without candidates, the record of a name
  of that genus without an identifier changes in its match level only.
\<close>

theorem genus_failed_only_level:
  assumes "genus_targets it targets res = Inr res'" and "t \<in> set targets"
    and "map_of res t = Some r" and "OTT_ID r = None" and "matches it = []"
  shows "map_of res' t = Some (r\<lparr>Match_Level := ''No Match Final - Genus Failed''\<rparr>)"
  using assms(1-4)
proof (induction targets arbitrary: res r)
  case Nil
  then show ?case by simp
next
  case (Cons a ts)
  from Cons.prems(1) obtain res1 where 1: "genus_update it a res = Inr res1"
    and 2: "genus_targets it ts res1 = Inr res'"
    by (auto split: sum.splits)
  show ?case
  proof (cases "a = t")
    case False
    with Cons.prems(2) have t: "t \<in> set ts" by simp
    from genus_update_other [OF 1, of t] False Cons.prems(3)
    have "map_of res1 t = Some r" by simp
    from Cons.IH [OF 2 t this Cons.prems(4)] show ?thesis .
  next
    case True
    let ?r1 = "r\<lparr>Match_Level := ''No Match Final - Genus Failed''\<rparr>"
    from 1 True Cons.prems(3,4) assms(5)
    have r1: "map_of res1 t = Some ?r1"
      by (auto simp: genus_update_def map_of_update split: if_splits)
    show ?thesis
    proof (cases "t \<in> set ts")
      case False
      from genus_targets_other [OF 2 False] r1 show ?thesis by simp
    next
      case t: True
      have "OTT_ID ?r1 = None" using Cons.prems(4) by simp
      from Cons.IH [OF 2 t r1 this] show ?thesis by simp
    qed
  qed
qed

text \<open>
  Claim C1 fails on the code: when the call of step 1 fails, no record is made, and the
  list comprehension after step 2 raises \<open>KeyError\<close>; the run ends without a result map.
\<close>

theorem failed_batch_aborts:
  "run service_down [''Oryza sativa'', ''Mangifera indica''] = Inl (KeyError ''Oryza sativa'')"
  by code_simp

text \<open>
  Claim C2 fails on the code: a failed call in step 1 ends the run with \<open>KeyError\<close>,
  where the same call answered with no candidates lets the run finish with a record.
\<close>

theorem failed_batch_not_zero_candidates:
  "run service_first_down [''Oryza sativa''] = Inl (KeyError ''Oryza sativa'')
   \<and> run service_empty [''Oryza sativa'']
       = Inr \<lparr>all_results =
                [(''Oryza sativa'',
                  \<lparr>Primary_Matched_Name = None, Synonyms = None, OTT_ID = None,
                   Rank = None, Match_Query = ''Oryza sativa'',
                   Match_Level = ''No Match Final - Genus Failed'',
                   Approximate_Match = False, Is_Synonym_Input = False\<rparr>)],
              calls = [[''Oryza sativa''], [''Oryza'']]\<rparr>"
  by code_simp

text \<open>
  Claim C5 fails on the code: two names with the same cleaned form lead to one query for
  it, and its match goes to the later of the two names only.
\<close>

theorem cleaned_result_not_fanned_out:
  "run service_cleaned_hit [''Oryza sativa L.'', ''Oryza sativa Linn.'']
     = Inr \<lparr>all_results =
              [(''Oryza sativa L.'',
                \<lparr>Primary_Matched_Name = None, Synonyms = None, OTT_ID = None,
                 Rank = None, Match_Query = ''Oryza sativa L.'',
                 Match_Level = ''No Match Final - Genus Failed'',
                 Approximate_Match = False, Is_Synonym_Input = False\<rparr>),
               (''Oryza sativa Linn.'',
                \<lparr>Primary_Matched_Name = Some ''Oryza sativa'', Synonyms = Some [],
                 OTT_ID = Some 5, Rank = Some ''species'',
                 Match_Query = ''Oryza sativa'',
                 Match_Level = ''Species - Cleaned'', Approximate_Match = False,
                 Is_Synonym_Input = False\<rparr>)],
            calls =
              [[''Oryza sativa L.'', ''Oryza sativa Linn.''],
               [''Oryza sativa''], [''Oryza'']]\<rparr>"
  by code_simp

theorem resolved_record_kept_witness:
  "map_of (all_results resolved_state) ''Oryza sativa L.'' = Some oryza_record
   \<and> OTT_ID oryza_record \<noteq> None
   \<and> map_of (process_tnrs_results (Some [candidate ''Oryza sativa L.'' 99 ''species''])
        (all_results resolved_state) ''Species - Original'' []) ''Oryza sativa L.''
       = Some oryza_record
   \<and> map_of (all_results (stage1 (service_hits 99 ''genus'') [''Oryza sativa L.'']
        resolved_state)) ''Oryza sativa L.'' = Some oryza_record
   \<and> stage2 (service_hits 99 ''genus'') [''Oryza sativa L.''] resolved_state
       = Inr (resolved_state\<lparr>calls := [[''Oryza sativa L.''], [''Oryza sativa'']]\<rparr>, [])
   \<and> stage3 (service_hits 99 ''genus'') [''Oryza sativa L.''] resolved_state
       = Inr (resolved_state\<lparr>calls := [[''Oryza sativa L.''], [''Oryza'']]\<rparr>)
   \<and> map_of (fill_missing [''Oryza sativa L.''] (all_results resolved_state))
        ''Oryza sativa L.'' = Some oryza_record"
proof -
  have h: "map_of (all_results resolved_state) ''Oryza sativa L.'' = Some oryza_record"
    by code_simp
  have i: "OTT_ID oryza_record \<noteq> None"
    by code_simp
  have s2: "stage2 (service_hits 99 ''genus'') [''Oryza sativa L.''] resolved_state
       = Inr (resolved_state\<lparr>calls := [[''Oryza sativa L.''], [''Oryza sativa'']]\<rparr>, [])"
    by code_simp
  have s3: "stage3 (service_hits 99 ''genus'') [''Oryza sativa L.''] resolved_state
       = Inr (resolved_state\<lparr>calls := [[''Oryza sativa L.''], [''Oryza'']]\<rparr>)"
    by code_simp
  from resolved_record_kept [OF h i, of "Some [candidate ''Oryza sativa L.'' 99 ''species'']"
      "''Species - Original''" "[]" "service_hits 99 ''genus''" "[''Oryza sativa L.'']"
      "[''Oryza sativa L.'']"]
  show ?thesis using h i s2 s3 by simp
qed

theorem genus_failed_only_level_witness:
  "genus_targets (no_candidates ''Oryza'') [''Oryza sativa''] unmatched_oryza
     = Inr [(''Oryza sativa'',
             (unmatched_record ''Oryza sativa'' ''No Match Initial'')
               \<lparr>Match_Level := ''No Match Final - Genus Failed''\<rparr>)]
   \<and> Match_Query ((unmatched_record ''Oryza sativa'' ''No Match Initial'')
               \<lparr>Match_Level := ''No Match Final - Genus Failed''\<rparr>) = ''Oryza sativa''"
proof -
  have a: "genus_targets (no_candidates ''Oryza'') [''Oryza sativa''] unmatched_oryza
     = Inr [(''Oryza sativa'',
             (unmatched_record ''Oryza sativa'' ''No Match Initial'')
               \<lparr>Match_Level := ''No Match Final - Genus Failed''\<rparr>)]"
    by code_simp
  have t: "''Oryza sativa'' \<in> set [''Oryza sativa'']" by simp
  have m: "map_of unmatched_oryza ''Oryza sativa''
     = Some (unmatched_record ''Oryza sativa'' ''No Match Initial'')"
    by (simp add: unmatched_oryza_def)
  have n: "OTT_ID (unmatched_record ''Oryza sativa'' ''No Match Initial'') = None"
    by (simp add: unmatched_record_def)
  have e: "matches (no_candidates ''Oryza'') = []"
    by (simp add: no_candidates_def)
  note genus_failed_only_level [OF a t m n e]
  with a show ?thesis by (simp add: unmatched_record_def)
qed

section \<open>The calls sent to the service\<close>

subsection \<open>cleaning a name with one authority\<close>











subsection \<open>a service without candidates in step 1\<close>













subsection \<open>steps 2 and 3 finish when every failed name has a record\<close>















end
